theory Spec2Isabelle
  imports Main "HOL-Library.Sublist"
begin

section \<open>Text: the string operations of the script\<close>

text \<open>
  A Python \<open>str\<close> is modelled as a \<open>string\<close>, one \<open>char\<close> per code point
  (code points below 256). \<open>is_space\<close> is \<open>str.isspace\<close> on that range: the
  characters that \<open>strip()\<close> and \<open>lstrip()\<close> remove when called without an argument.
\<close>

definition LF :: char where
  "LF = CHR 0x0A"

definition CR :: char where
  "CR = CHR 0x0D"

definition is_space :: "char \<Rightarrow> bool" where
  "is_space c = (c \<in> set [CHR 0x09, CHR 0x0A, CHR 0x0B, CHR 0x0C, CHR 0x0D,
                           CHR 0x1C, CHR 0x1D, CHR 0x1E, CHR 0x1F, CHR 0x20,
                           CHR 0x85, CHR 0xA0])"

definition lstrip :: "string \<Rightarrow> string" where
  "lstrip s = dropWhile is_space s"

definition rstrip :: "string \<Rightarrow> string" where
  "rstrip s = rev (dropWhile is_space (rev s))"

definition strip :: "string \<Rightarrow> string" where
  "strip s = rstrip (lstrip s)"

text \<open>\<open>line.rstrip("\n")\<close>: trailing newline characters only.\<close>

definition rstrip_newline :: "string \<Rightarrow> string" where
  "rstrip_newline s = rev (dropWhile (\<lambda>c. c = LF) (rev s))"

text \<open>\<open>token in line_text\<close>: the token occurs as a contiguous run of characters.\<close>

primrec contains :: "string \<Rightarrow> string \<Rightarrow> bool" where
  "contains [] t = (t = [])"
| "contains (c # cs) t = (prefix t (c # cs) \<or> contains cs t)"

text \<open>\<open>s.startswith("#")\<close>.\<close>

definition startswith_hash :: "string \<Rightarrow> bool" where
  "startswith_hash s = (case s of [] \<Rightarrow> False | c # _ \<Rightarrow> c = CHR ''#'')"

section \<open>Token normalization\<close>

text \<open>
  \<open>OrderedDict((k, None) for k in ks)\<close> inserts the keys one after the other: a key
  already present keeps its position, a new key goes to the end. Iterating the
  dictionary gives the keys in that order.
\<close>

fun ordered_dict_insert :: "'a list \<Rightarrow> 'a list \<Rightarrow> 'a list" where
  "ordered_dict_insert acc [] = acc"
| "ordered_dict_insert acc (k # ks) =
     ordered_dict_insert (if k \<in> set acc then acc else acc @ [k]) ks"

definition ordered_dict_keys :: "'a list \<Rightarrow> 'a list" where
  "ordered_dict_keys ks = ordered_dict_insert [] ks"

text \<open>
  \<^verbatim>\<open>
  def normalize_tokens(site, extra_tokens):
      tokens = [site]
      tokens.extend(extra_tokens)
      return [token for token in OrderedDict((token.strip(), None) for token in tokens) if token]
  \<close>
\<close>

definition normalize_tokens :: "string \<Rightarrow> string list \<Rightarrow> string list" where
  "normalize_tokens site extra_tokens =
     (let tokens = [site] @ extra_tokens
      in filter (\<lambda>token. token \<noteq> []) (ordered_dict_keys (map strip tokens)))"

section \<open>Paths\<close>

text \<open>
  \<open>pathlib.Path\<close> on POSIX: a path is its anchor (\<open>''''\<close> for a relative path, \<open>/\<close>, or
  \<open>//\<close> for exactly two leading slashes) and its list of names. Parsing a string splits it
  at the slashes and drops the empty and \<open>.\<close> components; \<open>..\<close> is kept.
\<close>

datatype Path = Path (anchor: string) (names: "string list")

fun split_slash :: "string \<Rightarrow> string list" where
  "split_slash [] = [[]]"
| "split_slash (c # cs) =
     (if c = CHR ''/'' then [] # split_slash cs
      else (case split_slash cs of [] \<Rightarrow> [[c]] | x # xs \<Rightarrow> (c # x) # xs))"

definition parse_anchor :: "string \<Rightarrow> string" where
  "parse_anchor s =
     (if take 2 s = ''//'' \<and> take 3 s \<noteq> ''///'' then ''//''
      else if take 1 s = ''/'' then ''/''
      else [])"

definition path_of_str :: "string \<Rightarrow> Path" where
  "path_of_str s =
     Path (parse_anchor s) (filter (\<lambda>x. x \<noteq> [] \<and> x \<noteq> ''.'') (split_slash s))"

fun join_with :: "string \<Rightarrow> string list \<Rightarrow> string" where
  "join_with sep [] = []"
| "join_with sep [x] = x"
| "join_with sep (x # y # ys) = x @ sep @ join_with sep (y # ys)"

text \<open>\<open>str(path)\<close>.\<close>

definition path_str :: "Path \<Rightarrow> string" where
  "path_str p =
     (if anchor p = [] \<and> names p = [] then ''.''
      else anchor p @ join_with ''/'' (names p))"

text \<open>\<open>path / s\<close>: an absolute right operand replaces the left one.\<close>

definition joinpath :: "Path \<Rightarrow> string \<Rightarrow> Path" where
  "joinpath p s =
     (let q = path_of_str s
      in if anchor q \<noteq> [] then q else Path (anchor p) (names p @ names q))"


definition path_name :: "Path \<Rightarrow> string" where
  "path_name p = (if names p = [] then [] else last (names p))"


section \<open>The environment: file system, clock, standard output\<close>

text \<open>
  A file holds its raw text; a directory is only known to exist. The errors are the
  exceptions the script's file operations raise on this model of the file system
  (permissions and undecodable bytes are not modelled).
\<close>

datatype node = File string | Dir

datatype py_error =
    FileNotFoundError
  | IsADirectoryError
  | NotADirectoryError
  | FileExistsError
  | SameFileError
  | ShutilError

record datetime =
  dt_year :: nat
  dt_month :: nat
  dt_day :: nat
  dt_hour :: nat
  dt_minute :: nat
  dt_second :: nat

text \<open>
  \<open>resolved\<close> is what \<open>Path.resolve()\<close> returns in the environment (symbolic links and
  the working directory are not modelled further). \<open>clock\<close> gives the successive readings
  of \<open>datetime.now()\<close>; \<open>ticks\<close> counts the readings taken. \<open>stdout\<close> holds one entry per
  call of \<open>print\<close>.
\<close>

record world =
  fs :: "Path \<Rightarrow> node option"
  resolved :: "Path \<Rightarrow> Path"
  clock :: "nat \<Rightarrow> datetime"
  ticks :: nat
  stdout :: "string list"

definition path_exists :: "world \<Rightarrow> Path \<Rightarrow> bool" where
  "path_exists w p = (fs w p \<noteq> None)"

definition is_dir :: "world \<Rightarrow> Path \<Rightarrow> bool" where
  "is_dir w p = (case fs w p of Some Dir \<Rightarrow> True | _ \<Rightarrow> False)"

definition is_file :: "world \<Rightarrow> Path \<Rightarrow> bool" where
  "is_file w p = (case fs w p of Some (File _) \<Rightarrow> True | _ \<Rightarrow> False)"

definition now :: "world \<Rightarrow> datetime \<times> world" where
  "now w = (clock w (ticks w), w\<lparr>ticks := Suc (ticks w)\<rparr>)"


subsection \<open>Numbers and time stamps as text\<close>

text \<open>The decimal digit \<open>d\<close>, for \<open>d < 10\<close>.\<close>

definition digit_char :: "nat \<Rightarrow> char" where
  "digit_char d = ''0123456789'' ! d"

fun str_nat :: "nat \<Rightarrow> string" where
  "str_nat n = (if n < 10 then [digit_char n] else str_nat (n div 10) @ [digit_char (n mod 10)])"

declare str_nat.simps [simp del]

definition zero_pad :: "nat \<Rightarrow> nat \<Rightarrow> string" where
  "zero_pad k n = replicate (k - length (str_nat n)) CHR ''0'' @ str_nat n"

text \<open>\<open>strftime("%Y%m%d%H%M%S")\<close> and \<open>strftime("%Y-%m-%d")\<close>.\<close>

definition strftime_compact :: "datetime \<Rightarrow> string" where
  "strftime_compact t =
     zero_pad 4 (dt_year t) @ zero_pad 2 (dt_month t) @ zero_pad 2 (dt_day t) @
     zero_pad 2 (dt_hour t) @ zero_pad 2 (dt_minute t) @ zero_pad 2 (dt_second t)"

definition strftime_date :: "datetime \<Rightarrow> string" where
  "strftime_date t =
     zero_pad 4 (dt_year t) @ ''-'' @ zero_pad 2 (dt_month t) @ ''-'' @ zero_pad 2 (dt_day t)"

subsection \<open>Text files\<close>

text \<open>
  \<open>path.open("r", encoding="utf-8")\<close> opens in text mode with universal newlines: on
  reading, \<open>\r\n\<close> and a lone \<open>\r\<close> become \<open>\n\<close>. Iterating the handle yields the lines,
  each with its terminating \<open>\n\<close> (the last line may have none).
\<close>

fun universal_newlines :: "string \<Rightarrow> string" where
  "universal_newlines [] = []"
| "universal_newlines [c] = (if c = CR then [LF] else [c])"
| "universal_newlines (c # d # cs) =
     (if c = CR then
        (if d = LF then LF # universal_newlines cs else LF # universal_newlines (d # cs))
      else c # universal_newlines (d # cs))"

fun split_lines :: "string \<Rightarrow> string list" where
  "split_lines [] = []"
| "split_lines (c # cs) =
     (if c = LF then [LF] # split_lines cs
      else (case split_lines cs of [] \<Rightarrow> [[c]] | l # ls \<Rightarrow> (c # l) # ls))"

definition read_lines :: "world \<Rightarrow> Path \<Rightarrow> py_error + string list" where
  "read_lines w p =
     (case fs w p of
        None \<Rightarrow> Inl FileNotFoundError
      | Some Dir \<Rightarrow> Inl IsADirectoryError
      | Some (File content) \<Rightarrow> Inr (split_lines (universal_newlines content)))"

text \<open>
  Writing in text mode replaces every \<open>\n\<close> by \<open>os.linesep\<close>, which is \<open>\n\<close> on POSIX.
  \<open>path.open("w")\<close> followed by \<open>writelines\<close> replaces the content of the file.
\<close>

definition os_linesep :: string where
  "os_linesep = [LF]"

definition encode_newlines :: "string \<Rightarrow> string" where
  "encode_newlines s = concat (map (\<lambda>c. if c = LF then os_linesep else [c]) s)"

definition write_lines :: "world \<Rightarrow> Path \<Rightarrow> string list \<Rightarrow> py_error + world" where
  "write_lines w p lines =
     (case fs w p of
        Some Dir \<Rightarrow> Inl IsADirectoryError
      | _ \<Rightarrow> Inr (w\<lparr>fs := (fs w)(p \<mapsto> File (encode_newlines (concat lines)))\<rparr>))"

text \<open>
  \<open>shutil.copy2(src, dst)\<close>: copies the bytes of a regular file; a destination that is a
  directory receives the copy under the source's name.
\<close>

definition copy2 :: "world \<Rightarrow> Path \<Rightarrow> Path \<Rightarrow> py_error + world" where
  "copy2 w src dst =
     (case fs w src of
        None \<Rightarrow> Inl FileNotFoundError
      | Some Dir \<Rightarrow> Inl IsADirectoryError
      | Some (File content) \<Rightarrow>
          (let target = (if is_dir w dst then joinpath dst (path_name src) else dst)
           in if target = src then Inl SameFileError
              else if is_dir w target then Inl IsADirectoryError
              else Inr (w\<lparr>fs := (fs w)(target \<mapsto> File content)\<rparr>)))"





section \<open>The script \<open>deploy/deactivate_site.py\<close>\<close>

subsection \<open>Data\<close>


definition DEFAULT_SITES_ROOT :: Path where
  "DEFAULT_SITES_ROOT = path_of_str ''/lu/sites''"

definition DEFAULT_ARCHIVE_DIR :: Path where
  "DEFAULT_ARCHIVE_DIR = joinpath DEFAULT_SITES_ROOT ''archive''"

record Match =
  line_number :: nat
  line_text :: string

record FileAnalysis =
  path :: Path
  active_matches :: "Match list"
  commented_matches :: "Match list"


subsection \<open>\<open>analyze_config_file\<close>\<close>

text \<open>
  \<^verbatim>\<open>
  for line_number, line in enumerate(handle, start=1):
      line_text = line.rstrip("\n")
      if not any(token in line_text for token in tokens):
          continue
      match = Match(line_number=line_number, line_text=line_text)
      if line_text.lstrip().startswith("#"):
          commented_matches.append(match)
      else:
          active_matches.append(match)
  \<close>
\<close>

fun scan_lines ::
  "string list \<Rightarrow> nat \<Rightarrow> string list \<Rightarrow> Match list \<Rightarrow> Match list \<Rightarrow> Match list \<times> Match list" where
  "scan_lines tokens n [] active commented = (active, commented)"
| "scan_lines tokens n (line # rest) active commented =
     (let text = rstrip_newline line
      in if \<not> list_ex (\<lambda>token. contains text token) tokens
         then scan_lines tokens (Suc n) rest active commented
         else
           (let match = \<lparr>line_number = n, line_text = text\<rparr>
            in if startswith_hash (lstrip text)
               then scan_lines tokens (Suc n) rest active (commented @ [match])
               else scan_lines tokens (Suc n) rest (active @ [match]) commented))"

definition analyze_config_file :: "world \<Rightarrow> Path \<Rightarrow> string list \<Rightarrow> py_error + FileAnalysis" where
  "analyze_config_file w p tokens =
     (case read_lines w p of
        Inl e \<Rightarrow> Inl e
      | Inr lines \<Rightarrow>
          (case scan_lines tokens 1 lines [] [] of
             (active, commented) \<Rightarrow>
               Inr \<lparr>path = p, active_matches = active, commented_matches = commented\<rparr>))"

subsection \<open>\<open>print_analysis\<close>\<close>


subsection \<open>\<open>comment_matching_lines\<close>\<close>

text \<open>
  \<^verbatim>\<open>
  for line_number, line in enumerate(handle, start=1):
      if line_number in target_lines and not line.lstrip().startswith("#"):
          updated_lines.append(f"# deactivated {site} {stamp} {line}")
      else:
          updated_lines.append(line)
  \<close>
\<close>

definition deactivation_marker :: "string \<Rightarrow> string \<Rightarrow> string" where
  "deactivation_marker site stamp = ''# deactivated '' @ site @ '' '' @ stamp @ '' ''"

fun rewrite_lines ::
  "nat set \<Rightarrow> string \<Rightarrow> string \<Rightarrow> nat \<Rightarrow> string list \<Rightarrow> string list \<Rightarrow> string list" where
  "rewrite_lines target_lines site stamp n [] updated_lines = updated_lines"
| "rewrite_lines target_lines site stamp n (line # rest) updated_lines =
     (if n \<in> target_lines \<and> \<not> startswith_hash (lstrip line)
      then rewrite_lines target_lines site stamp (Suc n) rest
             (updated_lines @ [deactivation_marker site stamp @ line])
      else rewrite_lines target_lines site stamp (Suc n) rest (updated_lines @ [line]))"

definition backup_path_of :: "Path \<Rightarrow> datetime \<Rightarrow> Path" where
  "backup_path_of p t = path_of_str (path_str p @ ''.bak.'' @ strftime_compact t)"

definition comment_matching_lines ::
  "world \<Rightarrow> Path \<Rightarrow> Match list \<Rightarrow> string \<Rightarrow> string \<Rightarrow> (py_error + Path) \<times> world" where
  "comment_matching_lines w p matches site stamp =
     (if matches = [] then (Inr p, w)
      else
        (case read_lines w p of
           Inl e \<Rightarrow> (Inl e, w)
         | Inr lines \<Rightarrow>
             (let target_lines = set (map line_number matches);
                  updated_lines = rewrite_lines target_lines site stamp 1 lines []
              in case now w of
                   (t, w1) \<Rightarrow>
                     (let backup_path = backup_path_of p t
                      in case copy2 w1 p backup_path of
                           Inl e \<Rightarrow> (Inl e, w1)
                         | Inr w2 \<Rightarrow>
                             (case write_lines w2 p updated_lines of
                                Inl e \<Rightarrow> (Inl e, w2)
                              | Inr w3 \<Rightarrow> (Inr backup_path, w3))))))"

subsection \<open>\<open>choose_archive_target\<close>\<close>

text \<open>
  \<^verbatim>\<open>
  base_target = archive_dir / site
  if not base_target.exists():
      return base_target
  suffix = datetime.now().strftime("%Y%m%d%H%M%S")
  return archive_dir / f"{site}-{suffix}"
  \<close>
\<close>

definition choose_archive_target :: "world \<Rightarrow> Path \<Rightarrow> string \<Rightarrow> Path \<times> world" where
  "choose_archive_target w archive_dir site =
     (let base_target = joinpath archive_dir site
      in if \<not> path_exists w base_target then (base_target, w)
         else
           (case now w of
              (t, w1) \<Rightarrow>
                (let suffix = strftime_compact t
                 in (joinpath archive_dir (site @ ''-'' @ suffix), w1))))"

subsection \<open>\<open>main\<close>\<close>







section \<open>Notions used to state the properties\<close>

text \<open>\<open>enumerate(xs, start=n)\<close>: the elements with their numbers.\<close>

definition enumerate_from :: "nat \<Rightarrow> 'a list \<Rightarrow> (nat \<times> 'a) list" where
  "enumerate_from n xs = zip [n..<n + length xs] xs"

text \<open>The lines that iterating over a text-mode handle of a file with this content yields.\<close>

definition file_lines :: "string \<Rightarrow> string list" where
  "file_lines content = split_lines (universal_newlines content)"

text \<open>
  The three classes of a line, in the words of the specification: a line matches when
  some token is a literal substring of its text; a matching line is commented when its
  first character after the leading whitespace is \<open>#\<close>, and active otherwise.
\<close>

datatype line_class = ActiveMatch | CommentedMatch | NoMatch

definition has_token :: "string list \<Rightarrow> string \<Rightarrow> bool" where
  "has_token tokens text = (\<exists>token\<in>set tokens. sublist token text)"

definition comment_prefixed :: "string \<Rightarrow> bool" where
  "comment_prefixed text = (\<exists>rest. dropWhile is_space text = CHR ''#'' # rest)"

definition classify :: "string list \<Rightarrow> string \<Rightarrow> line_class" where
  "classify tokens text =
     (if \<not> has_token tokens text then NoMatch
      else if comment_prefixed text then CommentedMatch
      else ActiveMatch)"

definition match_of :: "nat \<times> string \<Rightarrow> Match" where
  "match_of il = \<lparr>line_number = fst il, line_text = rstrip_newline (snd il)\<rparr>"

text \<open>
  What the loop of \<open>comment_matching_lines\<close> makes of a numbered line, and the list of
  lines it writes for a file with the given content.
\<close>

definition rewritten :: "nat set \<Rightarrow> string \<Rightarrow> string \<Rightarrow> nat \<times> string \<Rightarrow> string" where
  "rewritten target_lines site stamp il =
     (if fst il \<in> target_lines \<and> \<not> comment_prefixed (snd il)
      then deactivation_marker site stamp @ snd il
      else snd il)"

definition updated_lines_of :: "Match list \<Rightarrow> string \<Rightarrow> string \<Rightarrow> string \<Rightarrow> string list" where
  "updated_lines_of matches site stamp content =
     map (rewritten (set (map line_number matches)) site stamp)
       (enumerate_from 1 (file_lines content))"

text \<open>A text without line breaks.\<close>

definition single_line :: "string \<Rightarrow> bool" where
  "single_line s = (LF \<notin> set s \<and> CR \<notin> set s)"

text \<open>
  The shape of the lines of a text file: no line is empty, a line feed stands only at the
  end of a line, and every line but the last ends with one.
\<close>

definition line_shaped :: "string \<Rightarrow> bool" where
  "line_shaped l = (l \<noteq> [] \<and> LF \<notin> set (butlast l))"

definition lines_shaped :: "string list \<Rightarrow> bool" where
  "lines_shaped ls = ((\<forall>l\<in>set ls. line_shaped l) \<and> (\<forall>l\<in>set (butlast ls). last l = LF))"














section \<open>Concrete environments used as examples\<close>

definition example_time :: datetime where
  "example_time =
     \<lparr>dt_year = 2026, dt_month = 11, dt_day = 4, dt_hour = 1, dt_minute = 2, dt_second = 3\<rparr>"

text \<open>
  An archive that already holds \<open>mit\<close> and, from an earlier run in the same second,
  \<open>mit-20261104010203\<close>.
\<close>

definition collision_world :: world where
  "collision_world =
     \<lparr>fs = [Path ''/'' [''lu'', ''sites'', ''archive'', ''mit''] \<mapsto> Dir,
             Path ''/'' [''lu'', ''sites'', ''archive'', ''mit-20261104010203''] \<mapsto> Dir],
      resolved = (\<lambda>p. p), clock = (\<lambda>_. example_time), ticks = 0, stdout = []\<rparr>"

text \<open>A crontab with one active line for \<open>mit\<close>, one commented line and one other line.\<close>

definition config_world :: world where
  "config_world =
     \<lparr>fs = [Path ''/'' [''etc'', ''crontab''] \<mapsto>
               File (''0 * * * * mit job'' @ [LF] @ ''  # mit old'' @ [LF] @ ''other'' @ [LF])],
      resolved = (\<lambda>p. p), clock = (\<lambda>_. example_time), ticks = 0, stdout = []\<rparr>"

text \<open>A crontab with DOS line endings.\<close>

definition crlf_world :: world where
  "crlf_world =
     \<lparr>fs = [Path ''/'' [''etc'', ''crontab''] \<mapsto>
               File (''mit job'' @ [CR, LF] @ ''keep'' @ [CR, LF])],
      resolved = (\<lambda>p. p), clock = (\<lambda>_. example_time), ticks = 0, stdout = []\<rparr>"




section \<open>Facts about stripping\<close>

lemma lstrip_no_leading_space:
  "lstrip s \<noteq> [] \<Longrightarrow> \<not> is_space (hd (lstrip s))"
  unfolding lstrip_def by (simp add: hd_dropWhile)

lemma rstrip_no_trailing_space:
  "rstrip s \<noteq> [] \<Longrightarrow> \<not> is_space (last (rstrip s))"
  unfolding rstrip_def by (simp add: last_rev hd_dropWhile)

lemma lstrip_fixed:
  "s = [] \<or> \<not> is_space (hd s) \<Longrightarrow> lstrip s = s"
  unfolding lstrip_def by (cases s) auto

lemma rstrip_fixed:
  "s = [] \<or> \<not> is_space (last s) \<Longrightarrow> rstrip s = s"
proof -
  assume a: "s = [] \<or> \<not> is_space (last s)"
  then have "rev s = [] \<or> \<not> is_space (hd (rev s))"
    by (cases "s = []") (simp_all add: hd_rev)
  then have "dropWhile is_space (rev s) = rev s"
    by (cases "rev s") auto
  then show ?thesis unfolding rstrip_def by simp
qed

lemma rstrip_decomp:
  "s = rstrip s @ rev (takeWhile is_space (rev s))"
proof -
  have "rstrip s @ rev (takeWhile is_space (rev s)) =
        rev (takeWhile is_space (rev s) @ dropWhile is_space (rev s))"
    unfolding rstrip_def by (simp only: rev_append)
  also have "\<dots> = s" by simp
  finally show ?thesis by simp
qed

lemma rstrip_keeps_head:
  assumes "rstrip s \<noteq> []"
  shows "hd (rstrip s) = hd s"
proof -
  have "hd s = hd (rstrip s @ rev (takeWhile is_space (rev s)))"
    using rstrip_decomp [of s] by simp
  also have "\<dots> = hd (rstrip s)" using assms by (rule hd_append2)
  finally show ?thesis by simp
qed

lemma strip_Nil: "strip [] = []"
  by (simp add: strip_def lstrip_def rstrip_def)

lemma strip_idem: "strip (strip s) = strip s"
proof (cases "strip s = []")
  case True
  then show ?thesis by (simp only: strip_Nil)
next
  case False
  then have ne: "rstrip (lstrip s) \<noteq> []" by (simp add: strip_def)
  then have l: "lstrip s \<noteq> []" by (auto simp: rstrip_def)
  have "hd (strip s) = hd (lstrip s)"
    using rstrip_keeps_head [OF ne] by (simp add: strip_def)
  then have h: "\<not> is_space (hd (strip s))"
    using lstrip_no_leading_space [OF l] by simp
  have t: "\<not> is_space (last (strip s))"
    using rstrip_no_trailing_space [OF ne] by (simp add: strip_def)
  have "lstrip (strip s) = strip s" using h by (simp add: lstrip_fixed)
  moreover have "rstrip (strip s) = strip s" using t by (simp add: rstrip_fixed)
  ultimately show ?thesis by (simp add: strip_def [of "strip s"])
qed

section \<open>Facts about the ordered dictionary\<close>

lemma ordered_dict_insert_set:
  "set (ordered_dict_insert acc ks) = set acc \<union> set ks"
  by (induction ks arbitrary: acc) auto

lemma ordered_dict_insert_distinct:
  "distinct acc \<Longrightarrow> distinct (ordered_dict_insert acc ks)"
  by (induction ks arbitrary: acc) auto

lemma ordered_dict_insert_append:
  "ordered_dict_insert (a @ b) ks =
     a @ ordered_dict_insert b (filter (\<lambda>k. k \<notin> set a) ks)"
proof (induction ks arbitrary: b)
  case Nil
  show ?case by simp
next
  case (Cons k ks)
  show ?case
  proof (cases "k \<in> set a \<or> k \<in> set b")
    case True
    then show ?thesis using Cons.IH [of b] by auto
  next
    case False
    then show ?thesis using Cons.IH [of "b @ [k]"] by simp
  qed
qed

lemma ordered_dict_insert_split:
  "ordered_dict_insert acc ks =
     acc @ ordered_dict_insert [] (filter (\<lambda>k. k \<notin> set acc) ks)"
  using ordered_dict_insert_append [of acc "[]" ks] by simp

lemma ordered_dict_keys_Cons:
  "ordered_dict_keys (k # ks) = k # ordered_dict_keys (filter (\<lambda>x. x \<noteq> k) ks)"
  unfolding ordered_dict_keys_def
  using ordered_dict_insert_split [of "[k]" ks] by simp

lemma ordered_dict_keys_Nil: "ordered_dict_keys [] = []"
  by (simp add: ordered_dict_keys_def)

lemma ordered_dict_keys_set: "set (ordered_dict_keys ks) = set ks"
  by (simp add: ordered_dict_keys_def ordered_dict_insert_set)

lemma ordered_dict_keys_distinct: "distinct (ordered_dict_keys ks)"
  by (simp add: ordered_dict_keys_def ordered_dict_insert_distinct)

lemma ordered_dict_keys_fixed:
  "distinct ks \<Longrightarrow> ordered_dict_keys ks = ks"
proof (induction ks)
  case Nil
  show ?case by (simp add: ordered_dict_keys_Nil)
next
  case (Cons k ks)
  then have "filter (\<lambda>x. x \<noteq> k) ks = ks"
    by (auto intro: filter_True)
  with Cons show ?case by (simp add: ordered_dict_keys_Cons)
qed

lemma ordered_dict_keys_subseq: "subseq (ordered_dict_keys ks) ks"
proof (induction "length ks" arbitrary: ks rule: less_induct)
  case less
  show ?case
  proof (cases ks)
    case Nil
    then show ?thesis by (simp add: ordered_dict_keys_Nil)
  next
    case (Cons k rest)
    have "length (filter (\<lambda>x. x \<noteq> k) rest) < length ks"
      using Cons by (simp add: le_imp_less_Suc)
    then have "subseq (ordered_dict_keys (filter (\<lambda>x. x \<noteq> k) rest)) (filter (\<lambda>x. x \<noteq> k) rest)"
      by (rule less)
    then have "subseq (ordered_dict_keys (filter (\<lambda>x. x \<noteq> k) rest)) rest"
      using subseq_filter_left subseq_order.trans by blast
    then show ?thesis using Cons by (simp add: ordered_dict_keys_Cons)
  qed
qed

section \<open>Facts about token normalization\<close>

lemma takeWhile_filter_commute:
  "P x \<Longrightarrow> takeWhile (\<lambda>y. y \<noteq> x) (filter P ks) = filter P (takeWhile (\<lambda>y. y \<noteq> x) ks)"
proof (induction ks)
  case Nil
  show ?case by simp
next
  case (Cons k ks)
  then show ?case by (cases "k = x") simp_all
qed

lemma ordered_dict_keys_takeWhile:
  "takeWhile (\<lambda>y. y \<noteq> x) (ordered_dict_keys ks) = ordered_dict_keys (takeWhile (\<lambda>y. y \<noteq> x) ks)"
proof (induction "length ks" arbitrary: ks rule: less_induct)
  case less
  show ?case
  proof (cases ks)
    case Nil
    then show ?thesis by (simp add: ordered_dict_keys_Nil)
  next
    case (Cons k rest)
    show ?thesis
    proof (cases "k = x")
      case True
      then show ?thesis using Cons by (simp add: ordered_dict_keys_Cons ordered_dict_keys_Nil)
    next
      case False
      let ?f = "filter (\<lambda>y. y \<noteq> k) rest"
      have "length ?f < length ks" using Cons by (simp add: le_imp_less_Suc)
      then have ih: "takeWhile (\<lambda>y. y \<noteq> x) (ordered_dict_keys ?f) =
                     ordered_dict_keys (takeWhile (\<lambda>y. y \<noteq> x) ?f)"
        by (rule less)
      have c: "takeWhile (\<lambda>y. y \<noteq> x) ?f = filter (\<lambda>y. y \<noteq> k) (takeWhile (\<lambda>y. y \<noteq> x) rest)"
        using False takeWhile_filter_commute [of "\<lambda>y. y \<noteq> k" x rest] by simp
      show ?thesis using False Cons ih c by (simp add: ordered_dict_keys_Cons)
    qed
  qed
qed

lemma normalize_tokens_unfold:
  "normalize_tokens site extra =
     filter (\<lambda>t. t \<noteq> []) (ordered_dict_keys (map strip (site # extra)))"
  by (simp add: normalize_tokens_def)

lemma normalize_tokens_set:
  "set (normalize_tokens site extra) = strip ` set (site # extra) - {[]}"
  by (auto simp: normalize_tokens_unfold ordered_dict_keys_set)

lemma normalize_tokens_distinct: "distinct (normalize_tokens site extra)"
  by (simp add: normalize_tokens_unfold ordered_dict_keys_distinct)

lemma normalize_tokens_stripped:
  "t \<in> set (normalize_tokens site extra) \<Longrightarrow> strip t = t"
  by (auto simp: normalize_tokens_set strip_idem)

lemma normalize_tokens_subseq:
  "subseq (normalize_tokens site extra) (map strip (site # extra))"
proof -
  have "subseq (normalize_tokens site extra) (ordered_dict_keys (map strip (site # extra)))"
    unfolding normalize_tokens_unfold by (rule subseq_filter_left)
  then show ?thesis
    using ordered_dict_keys_subseq subseq_order.trans by blast
qed

lemma normalize_tokens_head:
  assumes "strip site \<noteq> []"
  shows "normalize_tokens site extra =
           strip site # filter (\<lambda>t. t \<noteq> [])
             (ordered_dict_keys (filter (\<lambda>t. t \<noteq> strip site) (map strip extra)))"
proof -
  have "ordered_dict_keys (map strip (site # extra)) =
        strip site # ordered_dict_keys (filter (\<lambda>t. t \<noteq> strip site) (map strip extra))"
    by (simp add: ordered_dict_keys_Cons)
  then show ?thesis unfolding normalize_tokens_unfold using assms by simp
qed

lemma normalize_tokens_before:
  assumes "x \<in> set (normalize_tokens site extra)"
  shows "set (takeWhile (\<lambda>y. y \<noteq> x) (normalize_tokens site extra)) =
         set (takeWhile (\<lambda>y. y \<noteq> x) (map strip (site # extra))) - {[]}"
proof -
  define ks where "ks = map strip (site # extra)"
  have r: "normalize_tokens site extra = filter (\<lambda>t. t \<noteq> []) (ordered_dict_keys ks)"
    unfolding ks_def by (rule normalize_tokens_unfold)
  have ne: "x \<noteq> []" using assms by (auto simp: normalize_tokens_set)
  have "takeWhile (\<lambda>y. y \<noteq> x) (filter (\<lambda>t. t \<noteq> []) (ordered_dict_keys ks)) =
        filter (\<lambda>t. t \<noteq> []) (takeWhile (\<lambda>y. y \<noteq> x) (ordered_dict_keys ks))"
    using ne by (rule takeWhile_filter_commute)
  also have "\<dots> = filter (\<lambda>t. t \<noteq> []) (ordered_dict_keys (takeWhile (\<lambda>y. y \<noteq> x) ks))"
    by (simp only: ordered_dict_keys_takeWhile)
  finally have "set (takeWhile (\<lambda>y. y \<noteq> x) (normalize_tokens site extra)) =
                set (filter (\<lambda>t. t \<noteq> []) (ordered_dict_keys (takeWhile (\<lambda>y. y \<noteq> x) ks)))"
    by (simp only: r)
  also have "\<dots> = set (takeWhile (\<lambda>y. y \<noteq> x) ks) - {[]}"
    by (auto simp: ordered_dict_keys_set)
  finally show ?thesis unfolding ks_def .
qed

lemma normalize_tokens_fixed:
  assumes "distinct ts" and "[] \<notin> set ts" and "\<forall>t\<in>set ts. strip t = t" and "ts \<noteq> []"
  shows "normalize_tokens (hd ts) (tl ts) = ts"
proof -
  have m: "map strip ts = ts" using assms(3) by (induction ts) auto
  have f: "filter (\<lambda>t. t \<noteq> []) ts = ts" using assms(2) by (induction ts) auto
  have "normalize_tokens (hd ts) (tl ts) = filter (\<lambda>t. t \<noteq> []) (ordered_dict_keys (map strip ts))"
    using assms(4) by (simp add: normalize_tokens_unfold)
  also have "\<dots> = ts" using assms(1) by (simp add: m ordered_dict_keys_fixed f)
  finally show ?thesis .
qed

lemma normalize_tokens_again:
  "normalize_tokens site (normalize_tokens site extra) = normalize_tokens site extra"
proof -
  define r where "r = normalize_tokens site extra"
  have m: "map strip r = r"
    unfolding r_def using normalize_tokens_stripped [of _ site extra] by (simp add: map_idI)
  have d: "distinct r" unfolding r_def by (rule normalize_tokens_distinct)
  have e: "[] \<notin> set r" unfolding r_def by (simp add: normalize_tokens_set)
  have fe: "filter (\<lambda>t. t \<noteq> []) r = r" using e by (auto simp: filter_id_conv)
  have df: "distinct (filter (\<lambda>t. t \<noteq> strip site) r)" using d by simp
  have k: "ordered_dict_keys (strip site # r) = strip site # filter (\<lambda>t. t \<noteq> strip site) r"
    using ordered_dict_keys_fixed [OF df] by (simp only: ordered_dict_keys_Cons)
  have "map strip (site # r) = strip site # r" using m by simp
  then have step: "normalize_tokens site r =
        filter (\<lambda>t. t \<noteq> []) (strip site # filter (\<lambda>t. t \<noteq> strip site) r)"
    unfolding normalize_tokens_unfold by (simp only: k)
  have "filter (\<lambda>t. t \<noteq> []) (strip site # filter (\<lambda>t. t \<noteq> strip site) r) = r"
  proof (cases "strip site = []")
    case True
    then show ?thesis using fe by simp
  next
    case False
    define r' where "r' = filter (\<lambda>t. t \<noteq> [])
                 (ordered_dict_keys (filter (\<lambda>t. t \<noteq> strip site) (map strip extra)))"
    have h: "r = strip site # r'"
      unfolding r_def r'_def using False by (rule normalize_tokens_head)
    have "strip site \<notin> set r'" unfolding r'_def by (simp add: ordered_dict_keys_set)
    then have "filter (\<lambda>t. t \<noteq> strip site) r' = r'" by (auto simp: filter_id_conv)
    then have a: "filter (\<lambda>t. t \<noteq> strip site) r = r'" by (simp add: h)
    have "[] \<notin> set r'" using e h by simp
    then have b: "filter (\<lambda>t. t \<noteq> []) r' = r'" by (auto simp: filter_id_conv)
    have "filter (\<lambda>t. t \<noteq> []) (strip site # filter (\<lambda>t. t \<noteq> strip site) r) =
          filter (\<lambda>t. t \<noteq> []) (strip site # r')"
      by (simp only: a)
    also have "\<dots> = strip site # r'" using False b by simp
    also have "\<dots> = r" by (simp only: h)
    finally show ?thesis .
  qed
  with step show ?thesis unfolding r_def by simp
qed

section \<open>Facts about paths\<close>

lemma split_slash_not_Nil: "split_slash s \<noteq> []"
  by (induction s) (auto split: list.splits)

lemma split_slash_append:
  "split_slash (s @ u) =
     butlast (split_slash s) @ (last (split_slash s) @ hd (split_slash u)) # tl (split_slash u)"
proof (induction s)
  case Nil
  show ?case using split_slash_not_Nil [of u] by (cases "split_slash u") simp_all
next
  case (Cons c s)
  show ?case
  proof (cases "c = CHR ''/''")
    case True
    then show ?thesis using Cons split_slash_not_Nil [of s] by simp
  next
    case False
    obtain x xs where s: "split_slash s = x # xs"
      using split_slash_not_Nil [of s] by (cases "split_slash s") auto
    show ?thesis
    proof (cases xs)
      case Nil
      then show ?thesis using False Cons s by simp
    next
      case (Cons y ys)
      then show ?thesis using False Cons.IH s by simp
    qed
  qed
qed

lemma split_slash_no_slash:
  "CHR ''/'' \<notin> set u \<Longrightarrow> split_slash u = [u]"
  by (induction u) auto

lemma split_slash_append_name:
  assumes "CHR ''/'' \<notin> set u"
  shows "split_slash (s @ u) = butlast (split_slash s) @ [last (split_slash s) @ u]"
  using split_slash_append [of s u] split_slash_no_slash [OF assms] by simp

lemma split_slash_Cons_other:
  "c \<noteq> CHR ''/'' \<Longrightarrow> hd (split_slash (c # t)) \<noteq> [] \<and> hd (hd (split_slash (c # t))) = c"
  using split_slash_not_Nil [of t] by (cases "split_slash t") auto

lemma names_suffix_distinct:
  assumes "c \<noteq> CHR ''/''" and "c \<noteq> CHR ''.''"
  shows "names (path_of_str (s @ c # t)) \<noteq> names (path_of_str s)"
proof -
  let ?ok = "\<lambda>x. x \<noteq> [] \<and> x \<noteq> ''.''"
  define S where "S = split_slash s"
  define U where "U = split_slash (c # t)"
  have Sne: "S \<noteq> []" unfolding S_def by (rule split_slash_not_Nil)
  have h: "hd U \<noteq> [] \<and> hd (hd U) = c"
    unfolding U_def using assms(1) by (rule split_slash_Cons_other)
  define x where "x = last S @ hd U"
  have xc: "c \<in> set x" using h unfolding x_def by (cases "hd U") auto
  have len: "length x > length (last S)" using h unfolding x_def by simp
  have okx: "?ok x"
  proof -
    have "x \<noteq> []" using h by (simp add: x_def)
    moreover have "x \<noteq> ''.''" using xc assms(2) by auto
    ultimately show ?thesis by simp
  qed
  have a: "split_slash (s @ c # t) = butlast S @ x # tl U"
    unfolding S_def U_def x_def by (rule split_slash_append)
  have b: "split_slash s = butlast S @ [last S]"
    using Sne unfolding S_def by simp
  have A: "names (path_of_str (s @ c # t)) = filter ?ok (butlast S) @ x # filter ?ok (tl U)"
    using okx by (simp add: path_of_str_def a)
  have B: "names (path_of_str s) = filter ?ok (butlast S) @ filter ?ok [last S]"
    unfolding path_of_str_def by (subst b) simp
  show ?thesis
  proof
    assume "names (path_of_str (s @ c # t)) = names (path_of_str s)"
    then have "x # filter ?ok (tl U) = filter ?ok [last S]"
      unfolding A B by simp
    then have "x = last S" by (auto split: if_splits)
    with len show False by simp
  qed
qed

lemma parse_anchor_empty_iff:
  "parse_anchor s = [] \<longleftrightarrow> take 1 s \<noteq> ''/''"
proof (cases s)
  case Nil
  then show ?thesis by (simp add: parse_anchor_def)
next
  case (Cons c cs)
  then show ?thesis by (cases cs) (auto simp: parse_anchor_def)
qed

lemma anchor_suffix:
  assumes "c \<noteq> CHR ''/''"
  shows "anchor (path_of_str (s @ c # t)) = [] \<longleftrightarrow> anchor (path_of_str s) = []"
  using assms by (cases s) (simp_all add: path_of_str_def parse_anchor_empty_iff)

lemma joinpath_suffix_distinct:
  assumes "c \<noteq> CHR ''/''" and "c \<noteq> CHR ''.''"
  shows "joinpath d (s @ c # t) \<noteq> joinpath d s"
proof -
  have n: "names (path_of_str (s @ c # t)) \<noteq> names (path_of_str s)"
    using assms by (rule names_suffix_distinct)
  have a: "anchor (path_of_str (s @ c # t)) = [] \<longleftrightarrow> anchor (path_of_str s) = []"
    using assms(1) by (rule anchor_suffix)
  show ?thesis
  proof (cases "anchor (path_of_str s) = []")
    case True
    then show ?thesis using a n by (simp add: joinpath_def Let_def)
  next
    case False
    then show ?thesis using a n by (auto simp: joinpath_def Let_def)
  qed
qed

lemma split_slash_parts_no_slash:
  "x \<in> set (split_slash s) \<Longrightarrow> CHR ''/'' \<notin> set x"
proof (induction s arbitrary: x)
  case Nil
  then show ?case by simp
next
  case (Cons c s)
  show ?case
  proof (cases "c = CHR ''/''")
    case True
    then show ?thesis using Cons by auto
  next
    case False
    obtain y ys where s: "split_slash s = y # ys"
      using split_slash_not_Nil [of s] by (cases "split_slash s") auto
    have "CHR ''/'' \<notin> set y" using Cons.IH [of y] s by simp
    moreover have "\<And>z. z \<in> set ys \<Longrightarrow> CHR ''/'' \<notin> set z" using Cons.IH s by simp
    ultimately show ?thesis using Cons.prems False s by auto
  qed
qed

lemma join_with_snoc: "\<exists>pre. a @ join_with sep (xs @ [z]) = pre @ z"
proof (induction xs arbitrary: a)
  case Nil
  show ?case by simp
next
  case (Cons x xs)
  obtain y ys where e: "xs @ [z] = y # ys" by (cases "xs @ [z]") auto
  obtain pre where "(a @ x @ sep) @ join_with sep (xs @ [z]) = pre @ z"
    using Cons [of "a @ x @ sep"] by blast
  then have "a @ join_with sep (x # y # ys) = pre @ z" using e by simp
  then show ?case using e by auto
qed

lemma path_of_str_suffix_ne:
  assumes u: "CHR ''/'' \<notin> set u" and len: "2 \<le> length u"
  shows "path_of_str (path_str p @ u) \<noteq> p"
proof
  let ?ok = "\<lambda>x. x \<noteq> [] \<and> x \<noteq> ''.''"
  assume eq: "path_of_str (path_str p @ u) = p"
  define s where "s = path_str p"
  define S where "S = split_slash s"
  define z where "z = last S @ u"
  have Sne: "S \<noteq> []" unfolding S_def by (rule split_slash_not_Nil)
  have "length z \<ge> 2" using len unfolding z_def by simp
  then have okz: "?ok z" by auto
  have sp: "split_slash (s @ u) = butlast S @ [z]"
    unfolding S_def z_def using u by (rule split_slash_append_name)
  have "names (path_of_str (s @ u)) = filter ?ok (butlast S) @ [z]"
    using okz by (simp add: path_of_str_def sp)
  then have nm: "names p = filter ?ok (butlast S) @ [z]"
    using eq unfolding s_def by simp
  then have "s = anchor p @ join_with ''/'' (filter ?ok (butlast S) @ [z])"
    unfolding s_def by (simp add: path_str_def)
  then obtain pre where pre: "s = pre @ z"
    using join_with_snoc [of "anchor p" "''/''" "filter ?ok (butlast S)" z] by auto
  have "CHR ''/'' \<notin> set (last S)"
    using Sne split_slash_parts_no_slash [of "last S" s] unfolding S_def by simp
  then have zs: "CHR ''/'' \<notin> set z" using u unfolding z_def by simp
  have "S = butlast (split_slash pre) @ [last (split_slash pre) @ z]"
    unfolding S_def pre using zs by (rule split_slash_append_name)
  then have "last S = last (split_slash pre) @ z" by simp
  then have "length (last S) = length (last (split_slash pre)) + length (last S) + length u"
    unfolding z_def by (metis length_append add.assoc)
  then show False using len by simp
qed

section \<open>Evaluating time stamps\<close>

lemma str_nat_digit: "n < 10 \<Longrightarrow> str_nat n = [digit_char n]"
  by (subst str_nat.simps) simp

lemma str_nat_more: "10 \<le> n \<Longrightarrow> str_nat n = str_nat (n div 10) @ [digit_char (n mod 10)]"
  by (subst str_nat.simps) simp

lemma example_compact: "strftime_compact example_time = ''20261104010203''"
  by (simp add: strftime_compact_def zero_pad_def example_time_def str_nat_digit str_nat_more
      digit_char_def)

lemma example_date: "strftime_date example_time = ''2026-11-04''"
  by (simp add: strftime_date_def zero_pad_def example_time_def str_nat_digit str_nat_more
      digit_char_def)

lemma digit_char_digit: "d < 10 \<Longrightarrow> digit_char d \<in> set ''0123456789''"
  unfolding digit_char_def by (rule nth_mem) simp

lemma str_nat_digits: "set (str_nat n) \<subseteq> set ''0123456789''"
proof (induction n rule: str_nat.induct)
  case (1 n)
  show ?case
  proof (cases "n < 10")
    case True
    then show ?thesis using digit_char_digit [of n] by (simp add: str_nat_digit)
  next
    case False
    then have "set (str_nat (n div 10)) \<subseteq> set ''0123456789''" by (rule 1)
    moreover have "digit_char (n mod 10) \<in> set ''0123456789''"
      by (rule digit_char_digit) simp
    ultimately show ?thesis using False by (simp add: str_nat_more)
  qed
qed

lemma zero_pad_digits: "set (zero_pad k n) \<subseteq> set ''0123456789''"
  using str_nat_digits [of n] by (auto simp: zero_pad_def)

lemma strftime_compact_digits: "set (strftime_compact t) \<subseteq> set ''0123456789''"
  unfolding strftime_compact_def
  using zero_pad_digits [of 4 "dt_year t"] zero_pad_digits [of 2 "dt_month t"]
    zero_pad_digits [of 2 "dt_day t"] zero_pad_digits [of 2 "dt_hour t"]
    zero_pad_digits [of 2 "dt_minute t"] zero_pad_digits [of 2 "dt_second t"]
  by (simp only: set_append Un_subset_iff)

section \<open>Facts about scanning a file\<close>

lemma contains_sublist: "contains s t \<longleftrightarrow> sublist t s"
  by (induction s) (simp_all add: sublist_Cons_right)

lemma list_ex_contains: "list_ex (\<lambda>token. contains text token) tokens \<longleftrightarrow> has_token tokens text"
  by (simp add: has_token_def list_ex_iff contains_sublist)

lemma startswith_hash_comment_prefixed:
  "startswith_hash (lstrip text) \<longleftrightarrow> comment_prefixed text"
proof (cases "dropWhile is_space text")
  case Nil
  then show ?thesis by (simp only: startswith_hash_def lstrip_def comment_prefixed_def) simp
next
  case (Cons c cs)
  then show ?thesis by (simp only: startswith_hash_def lstrip_def comment_prefixed_def) simp
qed

lemma enumerate_from_Nil: "enumerate_from n [] = []"
  by (simp add: enumerate_from_def)

lemma enumerate_from_Cons: "enumerate_from n (x # xs) = (n, x) # enumerate_from (Suc n) xs"
proof -
  have "[n..<n + length (x # xs)] = n # [Suc n..<Suc n + length xs]"
    by (simp add: upt_conv_Cons del: upt_Suc)
  then show ?thesis by (simp add: enumerate_from_def del: upt_Suc)
qed

lemma length_enumerate_from: "length (enumerate_from n xs) = length xs"
  by (simp add: enumerate_from_def)

lemma map_fst_enumerate_from: "map fst (enumerate_from n xs) = [n..<n + length xs]"
  by (simp add: enumerate_from_def)

lemma map_snd_enumerate_from: "map snd (enumerate_from n xs) = xs"
  by (simp add: enumerate_from_def)

lemma nth_enumerate_from:
  "i < length xs \<Longrightarrow> enumerate_from n xs ! i = (n + i, xs ! i)"
  by (simp add: enumerate_from_def)

lemma scan_lines_closed:
  "scan_lines tokens n lines active commented =
     (active @ map match_of
        (filter (\<lambda>il. classify tokens (rstrip_newline (snd il)) = ActiveMatch) (enumerate_from n lines)),
      commented @ map match_of
        (filter (\<lambda>il. classify tokens (rstrip_newline (snd il)) = CommentedMatch) (enumerate_from n lines)))"
proof (induction lines arbitrary: n active commented)
  case Nil
  show ?case by (simp add: enumerate_from_Nil)
next
  case (Cons line rest)
  show ?case
    by (simp add: Cons.IH enumerate_from_Cons Let_def classify_def list_ex_contains
        startswith_hash_comment_prefixed match_of_def)
qed

lemma distinct_fst_enumerate_from: "distinct (map fst (enumerate_from n xs))"
  by (simp add: map_fst_enumerate_from)

lemma enumerate_from_same_number:
  assumes "x \<in> set (enumerate_from n xs)" and "y \<in> set (enumerate_from n xs)"
    and "fst x = fst y"
  shows "x = y"
proof -
  have "inj_on fst (set (enumerate_from n xs))"
    using distinct_fst_enumerate_from [of n xs] by (simp add: distinct_map)
  then show ?thesis using assms by (auto dest: inj_onD)
qed

lemma match_of_number: "line_number (match_of il) = fst il"
  by (simp add: match_of_def)

lemma match_of_mem_filter:
  assumes "il \<in> set (enumerate_from n xs)"
  shows "match_of il \<in> set (map match_of (filter P (enumerate_from n xs))) \<longleftrightarrow> P il"
proof
  assume "match_of il \<in> set (map match_of (filter P (enumerate_from n xs)))"
  then obtain y where y: "y \<in> set (enumerate_from n xs)" "P y" "match_of y = match_of il"
    by auto
  then have "fst y = fst il" by (simp add: match_of_def)
  then have "y = il" using y(1) assms by (rule enumerate_from_same_number [rotated 2])
  with y(2) show "P il" by simp
next
  assume "P il"
  then show "match_of il \<in> set (map match_of (filter P (enumerate_from n xs)))"
    using assms by auto
qed

lemma class_counts:
  "length (filter (\<lambda>x. cls x = ActiveMatch) xs) + length (filter (\<lambda>x. cls x = CommentedMatch) xs) =
   length (filter (\<lambda>x. cls x \<noteq> NoMatch) xs)"
proof (induction xs)
  case Nil
  show ?case by simp
next
  case (Cons x xs)
  then show ?case by (cases "cls x") simp_all
qed

lemma classify_NoMatch: "classify tokens text \<noteq> NoMatch \<longleftrightarrow> has_token tokens text"
  by (simp add: classify_def)

lemma length_filter_enumerate_from:
  "length (filter (\<lambda>il. Q (snd il)) (enumerate_from n xs)) = length (filter Q xs)"
proof -
  have "filter Q (map snd (enumerate_from n xs)) = map snd (filter (\<lambda>il. Q (snd il)) (enumerate_from n xs))"
    by (simp add: filter_map comp_def)
  then have "length (filter Q (map snd (enumerate_from n xs))) =
             length (filter (\<lambda>il. Q (snd il)) (enumerate_from n xs))"
    by simp
  then show ?thesis by (simp add: map_snd_enumerate_from)
qed

lemma analyze_config_file_closed:
  assumes "fs w p = Some (File content)"
  shows "analyze_config_file w p tokens =
     Inr \<lparr>path = p,
          active_matches = map match_of
            (filter (\<lambda>il. classify tokens (rstrip_newline (snd il)) = ActiveMatch)
               (enumerate_from 1 (file_lines content))),
          commented_matches = map match_of
            (filter (\<lambda>il. classify tokens (rstrip_newline (snd il)) = CommentedMatch)
               (enumerate_from 1 (file_lines content)))\<rparr>"
  using assms
  by (simp add: analyze_config_file_def read_lines_def scan_lines_closed file_lines_def)

section \<open>Facts about rewriting a file\<close>

lemma backup_path_ne: "backup_path_of p t \<noteq> p"
proof -
  have "CHR ''/'' \<notin> set (''.bak.'' @ strftime_compact t)"
    using strftime_compact_digits [of t] by auto
  moreover have "2 \<le> length (''.bak.'' @ strftime_compact t)" by simp
  ultimately show ?thesis
    unfolding backup_path_of_def by (rule path_of_str_suffix_ne)
qed

lemma rewrite_lines_closed:
  "rewrite_lines target_lines site stamp n lines updated_lines =
     updated_lines @
     map (\<lambda>il. if fst il \<in> target_lines \<and> \<not> startswith_hash (lstrip (snd il))
               then deactivation_marker site stamp @ snd il else snd il)
       (enumerate_from n lines)"
  by (induction lines arbitrary: n updated_lines) (simp_all add: enumerate_from_Nil enumerate_from_Cons)

lemma encode_newlines_id: "encode_newlines s = s"
  by (induction s) (simp_all add: encode_newlines_def os_linesep_def)

lemma rewrite_lines_updated:
  "rewrite_lines (set (map line_number matches)) site stamp 1 (file_lines content) [] =
     updated_lines_of matches site stamp content"
  unfolding rewrite_lines_closed updated_lines_of_def
  by (simp add: rewritten_def startswith_hash_comment_prefixed cong: map_cong)

lemma comment_matching_lines_success:
  assumes "fs w p = Some (File content)" and "matches \<noteq> []"
    and "\<not> is_dir w (backup_path_of p (clock w (ticks w)))"
  shows "comment_matching_lines w p matches site stamp =
     (Inr (backup_path_of p (clock w (ticks w))),
      w\<lparr>ticks := Suc (ticks w),
        fs := ((fs w)(backup_path_of p (clock w (ticks w)) \<mapsto> File content))
                (p \<mapsto> File (concat (updated_lines_of matches site stamp content)))\<rparr>)"
proof -
  define b where "b = backup_path_of p (clock w (ticks w))"
  define w1 where "w1 = w\<lparr>ticks := Suc (ticks w)\<rparr>"
  have n: "now w = (clock w (ticks w), w1)" by (simp add: now_def w1_def)
  have rl: "read_lines w p = Inr (file_lines content)"
    using assms(1) by (simp add: read_lines_def file_lines_def)
  have bp: "b \<noteq> p" unfolding b_def by (rule backup_path_ne)
  have nd: "\<not> is_dir w1 b" using assms(3) by (simp add: is_dir_def w1_def b_def)
  have c: "copy2 w1 p b = Inr (w1\<lparr>fs := (fs w1)(b \<mapsto> File content)\<rparr>)"
    using assms(1) bp nd by (simp add: copy2_def w1_def)
  define w2 where "w2 = w1\<lparr>fs := (fs w1)(b \<mapsto> File content)\<rparr>"
  have f2: "fs w2 p = Some (File content)" using assms(1) bp by (simp add: w2_def w1_def)
  have wr: "write_lines w2 p ls = Inr (w2\<lparr>fs := (fs w2)(p \<mapsto> File (concat ls))\<rparr>)" for ls
    using f2 by (simp add: write_lines_def encode_newlines_id)
  have ru: "rewrite_lines (line_number ` set matches) site stamp (Suc 0) (file_lines content) [] =
            updated_lines_of matches site stamp content"
    using rewrite_lines_updated [of matches site stamp content] by simp
  have "comment_matching_lines w p matches site stamp =
        (Inr b, w2\<lparr>fs := (fs w2)(p \<mapsto> File (concat (updated_lines_of matches site stamp content)))\<rparr>)"
    using assms(2) c
    by (simp add: comment_matching_lines_def rl n ru b_def [symmetric]
        w2_def [symmetric] wr)
  then show ?thesis by (simp add: w2_def w1_def b_def)
qed

lemma length_updated_lines_of:
  "length (updated_lines_of matches site stamp content) = length (file_lines content)"
  by (simp add: updated_lines_of_def length_enumerate_from)

lemma nth_updated_lines_of:
  assumes "i < length (file_lines content)"
  shows "updated_lines_of matches site stamp content ! i =
     (if Suc i \<in> line_number ` set matches \<and> \<not> comment_prefixed (file_lines content ! i)
      then deactivation_marker site stamp @ file_lines content ! i
      else file_lines content ! i)"
  using assms
  by (simp add: updated_lines_of_def length_enumerate_from nth_enumerate_from rewritten_def)

lemma marker_comment_prefixed:
  "prefix (deactivation_marker site stamp) l \<Longrightarrow> comment_prefixed l"
  by (auto simp: deactivation_marker_def comment_prefixed_def prefix_def is_space_def)

lemma concat_split_lines: "concat (split_lines s) = s"
  by (induction s) (auto split: list.splits)

lemma universal_newlines_no_CR: "CR \<notin> set s \<Longrightarrow> universal_newlines s = s"
  by (induction s rule: universal_newlines.induct) auto

lemma concat_file_lines: "concat (file_lines content) = universal_newlines content"
  by (simp add: file_lines_def concat_split_lines)


section \<open>Facts about the lines of a text file\<close>

lemma universal_newlines_drops_CR: "CR \<notin> set (universal_newlines s)"
  by (induction s rule: universal_newlines.induct) (auto simp: CR_def LF_def)

lemma split_lines_terminated:
  "LF \<notin> set b \<Longrightarrow> split_lines (b @ LF # s) = (b @ [LF]) # split_lines s"
  by (induction b) auto

lemma split_lines_unterminated:
  "LF \<notin> set b \<Longrightarrow> b \<noteq> [] \<Longrightarrow> split_lines b = [b]"
proof (induction b)
  case Nil
  then show ?case by simp
next
  case (Cons c b)
  then show ?case by (cases b) auto
qed

lemma line_shaped_snoc: "line_shaped l \<longleftrightarrow> (\<exists>b x. l = b @ [x] \<and> LF \<notin> set b)"
proof (cases l rule: rev_cases)
  case Nil
  then show ?thesis by (simp add: line_shaped_def)
next
  case (snoc b x)
  then show ?thesis by (simp add: line_shaped_def)
qed

lemma split_lines_one:
  assumes "line_shaped l"
  shows "split_lines l = [l]"
proof -
  obtain b x where l: "l = b @ [x]" and b: "LF \<notin> set b"
    using assms line_shaped_snoc by blast
  show ?thesis
  proof (cases "x = LF")
    case True
    have "split_lines (b @ LF # []) = (b @ [LF]) # split_lines []"
      using b by (rule split_lines_terminated)
    then show ?thesis using True l by simp
  next
    case False
    then have "LF \<notin> set l" using b l by simp
    moreover have "l \<noteq> []" using l by simp
    ultimately show ?thesis by (rule split_lines_unterminated)
  qed
qed

lemma split_lines_concat:
  "lines_shaped ls \<Longrightarrow> split_lines (concat ls) = ls"
proof (induction ls)
  case Nil
  show ?case by simp
next
  case (Cons l ls)
  have sh: "line_shaped l" using Cons.prems by (simp add: lines_shaped_def)
  show ?case
  proof (cases "ls = []")
    case True
    then show ?thesis using split_lines_one [OF sh] by simp
  next
    case False
    then have t: "last l = LF" using Cons.prems by (simp add: lines_shaped_def)
    have rest: "lines_shaped ls" using Cons.prems False by (auto simp: lines_shaped_def)
    obtain b x where l: "l = b @ [x]" and b: "LF \<notin> set b"
      using sh line_shaped_snoc by blast
    have x: "x = LF" using t l by simp
    have "split_lines (b @ LF # concat ls) = (b @ [LF]) # split_lines (concat ls)"
      using b by (rule split_lines_terminated)
    then have "split_lines (b @ LF # concat ls) = l # ls"
      using Cons.IH [OF rest] l x by simp
    moreover have "concat (l # ls) = b @ LF # concat ls" using l x by simp
    ultimately show ?thesis by (simp only:)
  qed
qed

lemma split_lines_shaped: "lines_shaped (split_lines s)"
proof (induction s)
  case Nil
  show ?case by (simp add: lines_shaped_def)
next
  case (Cons c s)
  note ih = Cons.IH
  show ?case
  proof (cases "c = LF")
    case True
    then show ?thesis using ih by (auto simp: lines_shaped_def line_shaped_def)
  next
    case False
    show ?thesis
    proof (cases "split_lines s = []")
      case True
      then show ?thesis using False by (simp add: lines_shaped_def line_shaped_def)
    next
      case ne: False
      then obtain l ls where e: "split_lines s = l # ls" by (cases "split_lines s") auto
      then have a: "split_lines (c # s) = (c # l) # ls" using False by simp
      have b: "lines_shaped (l # ls)" using ih e by simp
      have c1: "line_shaped (c # l)"
        using b False by (cases l) (auto simp: lines_shaped_def line_shaped_def)
      have c2: "\<forall>x\<in>set ls. line_shaped x" using b by (simp add: lines_shaped_def)
      have c3: "\<forall>x\<in>set (butlast ((c # l) # ls)). last x = LF"
        using b by (cases l) (auto simp: lines_shaped_def line_shaped_def)
      show ?thesis unfolding a using c1 c2 c3 by (simp add: lines_shaped_def)
    qed
  qed
qed

section \<open>Facts about scanning a rewritten file\<close>

lemma rstrip_newline_decomp:
  "\<exists>t. l = rstrip_newline l @ t \<and> (\<forall>x\<in>set t. x = LF)"
proof -
  let ?t = "rev (takeWhile (\<lambda>c. c = LF) (rev l))"
  have "rstrip_newline l @ ?t = rev (takeWhile (\<lambda>c. c = LF) (rev l) @ dropWhile (\<lambda>c. c = LF) (rev l))"
    unfolding rstrip_newline_def by (simp only: rev_append)
  then have "l = rstrip_newline l @ ?t" by simp
  moreover have "\<forall>x\<in>set ?t. x = LF" by (auto dest: set_takeWhileD)
  ultimately show ?thesis by blast
qed

lemma is_space_LF: "is_space LF"
  by (simp add: is_space_def LF_def)

lemma comment_prefixed_append_newlines:
  assumes "\<forall>x\<in>set t. x = LF"
  shows "comment_prefixed (r @ t) \<longleftrightarrow> comment_prefixed r"
proof (cases "\<forall>x\<in>set r. is_space x")
  case True
  then have a: "dropWhile is_space r = []" by simp
  have "\<forall>x\<in>set (r @ t). is_space x" using True assms is_space_LF by auto
  then have b: "dropWhile is_space (r @ t) = []" by (simp only: dropWhile_eq_Nil_conv)
  show ?thesis unfolding comment_prefixed_def a b by simp
next
  case False
  then obtain x where "x \<in> set r" "\<not> is_space x" by blast
  then have a: "dropWhile is_space (r @ t) = dropWhile is_space r @ t"
    by (rule dropWhile_append1)
  have "dropWhile is_space r \<noteq> []" using False by simp
  then obtain c cs where "dropWhile is_space r = c # cs" by (cases "dropWhile is_space r") auto
  then show ?thesis using a by (simp add: comment_prefixed_def)
qed

lemma comment_prefixed_rstrip_newline:
  "comment_prefixed (rstrip_newline l) \<longleftrightarrow> comment_prefixed l"
proof -
  obtain t where t: "l = rstrip_newline l @ t" "\<forall>x\<in>set t. x = LF"
    using rstrip_newline_decomp by blast
  have "comment_prefixed (rstrip_newline l @ t) \<longleftrightarrow> comment_prefixed (rstrip_newline l)"
    using t(2) by (rule comment_prefixed_append_newlines)
  then show ?thesis using t(1) by simp
qed

lemma lines_shaped_prefixed:
  assumes sh: "lines_shaped ls" and len: "length us = length ls"
    and each: "\<forall>i<length ls. us ! i = ls ! i \<or> (\<exists>m. LF \<notin> set m \<and> us ! i = m @ ls ! i)"
  shows "lines_shaped us"
proof -
  have one: "line_shaped (us ! i) \<and> last (us ! i) = last (ls ! i)" if i: "i < length ls" for i
  proof -
    have l: "line_shaped (ls ! i)" using sh i by (simp add: lines_shaped_def)
    then obtain b x where bx: "ls ! i = b @ [x]" "LF \<notin> set b"
      using line_shaped_snoc by blast
    from each i consider "us ! i = ls ! i" | m where "LF \<notin> set m" "us ! i = m @ ls ! i"
      by blast
    then show ?thesis
    proof cases
      case 1
      then show ?thesis using l by simp
    next
      case 2
      then have "us ! i = (m @ b) @ [x]" using bx by simp
      moreover have "LF \<notin> set (m @ b)" using 2 bx by simp
      ultimately have "line_shaped (us ! i)" using line_shaped_snoc by blast
      then show ?thesis using 2 bx by simp
    qed
  qed
  have a: "\<forall>l\<in>set us. line_shaped l"
  proof
    fix l
    assume "l \<in> set us"
    then obtain i where "i < length us" "us ! i = l" by (auto simp: in_set_conv_nth)
    then show "line_shaped l" using one [of i] len by auto
  qed
  have b: "\<forall>l\<in>set (butlast us). last l = LF"
  proof
    fix l
    assume "l \<in> set (butlast us)"
    then obtain i where i: "i < length (butlast us)" "butlast us ! i = l"
      by (auto simp: in_set_conv_nth)
    then have i': "i < length ls - 1" using len by simp
    then have "butlast ls ! i \<in> set (butlast ls)" by simp
    then have "last (butlast ls ! i) = LF" using sh by (simp add: lines_shaped_def)
    then have "last (ls ! i) = LF" using i' by (simp add: nth_butlast)
    moreover have "l = us ! i" using i by (simp add: nth_butlast)
    ultimately show "last l = LF" using one [of i] i' by simp
  qed
  show ?thesis using a b by (simp add: lines_shaped_def)
qed

lemma marker_single_line:
  assumes "single_line site" and "single_line stamp"
  shows "single_line (deactivation_marker site stamp)"
  using assms by (auto simp: single_line_def deactivation_marker_def LF_def CR_def)

lemma file_lines_shaped: "lines_shaped (file_lines content)"
  unfolding file_lines_def by (rule split_lines_shaped)

lemma file_lines_no_CR: "l \<in> set (file_lines content) \<Longrightarrow> CR \<notin> set l"
proof -
  assume "l \<in> set (file_lines content)"
  then have "set l \<subseteq> set (concat (file_lines content))" by auto
  then show ?thesis using universal_newlines_drops_CR [of content]
    by (auto simp: concat_file_lines)
qed

lemma updated_lines_shaped:
  assumes "single_line site" and "single_line stamp"
  shows "lines_shaped (updated_lines_of matches site stamp content)"
proof (rule lines_shaped_prefixed [OF file_lines_shaped length_updated_lines_of])
  have m: "LF \<notin> set (deactivation_marker site stamp)"
    using marker_single_line [OF assms] by (simp add: single_line_def)
  show "\<forall>i<length (file_lines content).
          updated_lines_of matches site stamp content ! i = file_lines content ! i \<or>
          (\<exists>m. LF \<notin> set m \<and>
             updated_lines_of matches site stamp content ! i = m @ file_lines content ! i)"
    using m by (auto simp: nth_updated_lines_of)
qed

lemma updated_lines_no_CR:
  assumes "single_line site" and "single_line stamp"
  shows "CR \<notin> set (concat (updated_lines_of matches site stamp content))"
proof -
  have m: "CR \<notin> set (deactivation_marker site stamp)"
    using marker_single_line [OF assms] by (simp add: single_line_def)
  have "CR \<notin> set u" if "u \<in> set (updated_lines_of matches site stamp content)" for u
  proof -
    from that obtain il where il: "il \<in> set (enumerate_from 1 (file_lines content))"
      and u: "u = rewritten (set (map line_number matches)) site stamp il"
      by (auto simp: updated_lines_of_def)
    have "snd il \<in> set (map snd (enumerate_from 1 (file_lines content)))" using il by force
    then have "snd il \<in> set (file_lines content)" by (simp only: map_snd_enumerate_from)
    then have "CR \<notin> set (snd il)" by (rule file_lines_no_CR)
    then show ?thesis using m u by (simp add: rewritten_def)
  qed
  then show ?thesis by auto
qed

lemma file_lines_updated:
  assumes "single_line site" and "single_line stamp"
  shows "file_lines (concat (updated_lines_of matches site stamp content)) =
         updated_lines_of matches site stamp content"
proof -
  have "universal_newlines (concat (updated_lines_of matches site stamp content)) =
        concat (updated_lines_of matches site stamp content)"
    using updated_lines_no_CR [OF assms] by (rule universal_newlines_no_CR)
  then show ?thesis
    unfolding file_lines_def
    using split_lines_concat [OF updated_lines_shaped [OF assms]] by simp
qed

lemma updated_target_commented:
  assumes "i < length (file_lines content)" and "Suc i \<in> line_number ` set matches"
  shows "comment_prefixed (updated_lines_of matches site stamp content ! i)"
proof (cases "comment_prefixed (file_lines content ! i)")
  case True
  then show ?thesis using assms by (simp add: nth_updated_lines_of)
next
  case False
  have "comment_prefixed (deactivation_marker site stamp @ file_lines content ! i)"
    by (rule marker_comment_prefixed [of site stamp]) simp
  then show ?thesis using False assms by (simp add: nth_updated_lines_of)
qed

lemma in_enumerate_from:
  "il \<in> set (enumerate_from n xs) \<longleftrightarrow> (\<exists>i<length xs. il = (n + i, xs ! i))"
proof
  assume "il \<in> set (enumerate_from n xs)"
  then obtain i where "i < length (enumerate_from n xs)" "enumerate_from n xs ! i = il"
    by (auto simp: in_set_conv_nth)
  then show "\<exists>i<length xs. il = (n + i, xs ! i)"
    by (auto simp: length_enumerate_from nth_enumerate_from)
next
  assume "\<exists>i<length xs. il = (n + i, xs ! i)"
  then obtain i where i: "i < length xs" "il = (n + i, xs ! i)" by blast
  then have "enumerate_from n xs ! i = il" by (simp add: nth_enumerate_from)
  moreover have "i < length (enumerate_from n xs)" using i by (simp add: length_enumerate_from)
  ultimately show "il \<in> set (enumerate_from n xs)" by (auto simp: in_set_conv_nth)
qed

lemma classify_active:
  "classify tokens (rstrip_newline l) = ActiveMatch \<longleftrightarrow>
     has_token tokens (rstrip_newline l) \<and> \<not> comment_prefixed l"
  by (simp add: classify_def comment_prefixed_rstrip_newline)

lemma rescan_active_not_target:
  assumes il: "il \<in> set (enumerate_from 1 (updated_lines_of matches site stamp content))"
    and act: "classify tokens (rstrip_newline (snd il)) = ActiveMatch"
  shows "fst il \<notin> line_number ` set matches"
proof
  assume t: "fst il \<in> line_number ` set matches"
  obtain i where i: "i < length (file_lines content)"
    and e: "il = (1 + i, updated_lines_of matches site stamp content ! i)"
    using il by (auto simp: in_enumerate_from length_updated_lines_of)
  have "comment_prefixed (updated_lines_of matches site stamp content ! i)"
    using i t e by (intro updated_target_commented) simp_all
  then show False using act e by (simp add: classify_active)
qed

lemma rescan_active_was_active:
  assumes il: "il \<in> set (enumerate_from 1 (updated_lines_of matches site stamp content))"
    and act: "classify tokens (rstrip_newline (snd il)) = ActiveMatch"
  shows "il \<in> set (enumerate_from 1 (file_lines content))"
proof -
  obtain i where i: "i < length (file_lines content)"
    and e: "il = (1 + i, updated_lines_of matches site stamp content ! i)"
    using il by (auto simp: in_enumerate_from length_updated_lines_of)
  have "Suc i \<notin> line_number ` set matches"
    using rescan_active_not_target [OF il act] e by simp
  then have "updated_lines_of matches site stamp content ! i = file_lines content ! i"
    using i by (simp add: nth_updated_lines_of)
  then show ?thesis using i e by (auto simp: in_enumerate_from)
qed

section \<open>Facts about the run of \<open>main\<close>\<close>








lemma analyze_config_file_same_fs:
  "fs w' = fs w \<Longrightarrow> analyze_config_file w' p tokens = analyze_config_file w p tokens"
  by (simp add: analyze_config_file_def read_lines_def)

lemma path_exists_same_fs: "fs w' = fs w \<Longrightarrow> path_exists w' p = path_exists w p"
  by (simp add: path_exists_def)






















section \<open>The example crontab\<close>

lemma config_world_analysis:
  "analyze_config_file config_world (Path ''/'' [''etc'', ''crontab'']) [''mit''] =
     Inr \<lparr>path = Path ''/'' [''etc'', ''crontab''],
          active_matches = [\<lparr>line_number = 1, line_text = ''0 * * * * mit job''\<rparr>],
          commented_matches = [\<lparr>line_number = 2, line_text = ''  # mit old''\<rparr>]\<rparr>"
  by (simp add: analyze_config_file_def read_lines_def config_world_def LF_def CR_def
      rstrip_newline_def lstrip_def is_space_def startswith_hash_def Let_def)









section \<open>Claims about \<open>normalize_tokens\<close>\<close>

text \<open>
  C4, as stated, fails: a site identifier that is empty or whitespace-only is dropped like
  any other empty token, so the token list can be empty. Here the site is a single blank
  and the only extra token is empty.
\<close>

theorem normalize_tokens_empty_counterexample:
  "normalize_tokens '' '' [''''] = []"
  by (simp add: normalize_tokens_def ordered_dict_keys_def strip_def lstrip_def rstrip_def
      is_space_def)

text \<open>
  C4 (amended): the token list produced by \<open>normalize_tokens\<close> never contains the empty
  string; it is empty exactly when every input token (the site identifier included) is
  empty or whitespace-only; and whenever the site identifier is not empty or
  whitespace-only the list is non-empty and contains the stripped site identifier.
\<close>

theorem normalize_tokens_no_empty_token:
  "[] \<notin> set (normalize_tokens site extra) \<and>
   (normalize_tokens site extra = [] \<longleftrightarrow> (\<forall>t\<in>set (site # extra). strip t = [])) \<and>
   (strip site \<noteq> [] \<longrightarrow>
      normalize_tokens site extra \<noteq> [] \<and> strip site \<in> set (normalize_tokens site extra))"
proof -
  have a: "[] \<notin> set (normalize_tokens site extra)"
    by (simp add: normalize_tokens_set)
  have "set (normalize_tokens site extra) = {} \<longleftrightarrow> (\<forall>t\<in>set (site # extra). strip t = [])"
    unfolding normalize_tokens_set by auto
  then have b: "normalize_tokens site extra = [] \<longleftrightarrow> (\<forall>t\<in>set (site # extra). strip t = [])"
    by simp
  have c: "strip site \<noteq> [] \<longrightarrow>
      normalize_tokens site extra \<noteq> [] \<and> strip site \<in> set (normalize_tokens site extra)"
    by (auto simp: normalize_tokens_head)
  from a b c show ?thesis by blast
qed

theorem normalize_tokens_no_empty_token_witness:
  "strip ''mit'' \<noteq> [] \<and> [] \<notin> set (normalize_tokens ''mit'' ['' '', ''esp''])
   \<and> normalize_tokens ''mit'' ['' '', ''esp''] \<noteq> []
   \<and> strip ''mit'' \<in> set (normalize_tokens ''mit'' ['' '', ''esp''])"
proof -
  have h: "strip ''mit'' \<noteq> []"
    by (simp add: strip_def lstrip_def rstrip_def is_space_def)
  show ?thesis
    using h normalize_tokens_no_empty_token [of "''mit''" "['' '', ''esp'']"] by blast
qed

text \<open>
  C7, as stated, fails in one point: the site identifier is not always first. With an
  empty site identifier and the extra token \<open>a\<close> the result is \<open>[a]\<close>: its first
  element is neither the site identifier nor its stripped form.
\<close>

theorem normalize_tokens_site_first_counterexample:
  "normalize_tokens '''' [''a''] = [''a''] \<and> hd (normalize_tokens '''' [''a'']) \<noteq> strip ''''"
  by (simp add: normalize_tokens_def ordered_dict_keys_def strip_def lstrip_def rstrip_def
      is_space_def)

text \<open>
  C7 (amended): for every site identifier and extra-token list, \<open>normalize_tokens\<close>
  returns a duplicate-free list of stripped tokens, none of them empty, holding exactly
  the non-empty stripped input tokens, in the order of their first occurrence in
  \<open>site # extra\<close> (the tokens before \<open>x\<close> in the result are the non-empty stripped tokens
  before the first \<open>x\<close> in the input); the stripped site identifier is first unless it is
  empty, in which case it is dropped like any other token. Normalization is idempotent:
  normalizing the result again, with the same site identifier or with the result's own
  first token as the site, gives the same list.
\<close>

theorem normalize_tokens_ordered_idempotent:
  "distinct (normalize_tokens site extra) \<and>
   set (normalize_tokens site extra) = strip ` set (site # extra) - {[]} \<and>
   (\<forall>t\<in>set (normalize_tokens site extra). strip t = t) \<and>
   subseq (normalize_tokens site extra) (map strip (site # extra)) \<and>
   (\<forall>x\<in>set (normalize_tokens site extra).
      set (takeWhile (\<lambda>y. y \<noteq> x) (normalize_tokens site extra)) =
      set (takeWhile (\<lambda>y. y \<noteq> x) (map strip (site # extra))) - {[]}) \<and>
   (strip site \<noteq> [] \<longrightarrow> hd (normalize_tokens site extra) = strip site) \<and>
   normalize_tokens site (normalize_tokens site extra) = normalize_tokens site extra \<and>
   (normalize_tokens site extra \<noteq> [] \<longrightarrow>
      normalize_tokens (hd (normalize_tokens site extra)) (tl (normalize_tokens site extra)) =
      normalize_tokens site extra)"
proof -
  let ?r = "normalize_tokens site extra"
  have d: "distinct ?r" by (rule normalize_tokens_distinct)
  have s: "set ?r = strip ` set (site # extra) - {[]}" by (rule normalize_tokens_set)
  have st: "\<forall>t\<in>set ?r. strip t = t" using normalize_tokens_stripped by blast
  have sub: "subseq ?r (map strip (site # extra))" by (rule normalize_tokens_subseq)
  have ord: "\<forall>x\<in>set ?r. set (takeWhile (\<lambda>y. y \<noteq> x) ?r) =
               set (takeWhile (\<lambda>y. y \<noteq> x) (map strip (site # extra))) - {[]}"
    using normalize_tokens_before by blast
  have first: "strip site \<noteq> [] \<longrightarrow> hd ?r = strip site"
    by (simp add: normalize_tokens_head)
  have again: "normalize_tokens site ?r = ?r" by (rule normalize_tokens_again)
  have e: "[] \<notin> set ?r" by (simp add: normalize_tokens_set)
  have self: "?r \<noteq> [] \<longrightarrow> normalize_tokens (hd ?r) (tl ?r) = ?r"
    using normalize_tokens_fixed [OF d e st] by blast
  from d s st sub ord first again self show ?thesis by blast
qed

theorem normalize_tokens_ordered_idempotent_witness:
  "strip '' mit '' \<noteq> [] \<and>
   normalize_tokens '' mit '' [''esp'', ''mit'', '''', ''esp ''] \<noteq> [] \<and>
   hd (normalize_tokens '' mit '' [''esp'', ''mit'', '''', ''esp '']) = strip '' mit '' \<and>
   normalize_tokens (hd (normalize_tokens '' mit '' [''esp'', ''mit'', '''', ''esp '']))
                    (tl (normalize_tokens '' mit '' [''esp'', ''mit'', '''', ''esp ''])) =
     normalize_tokens '' mit '' [''esp'', ''mit'', '''', ''esp '']"
proof -
  let ?e = "[''esp'', ''mit'', '''', ''esp '']"
  have v: "normalize_tokens '' mit '' ?e = [''mit'', ''esp'']"
    by (simp add: normalize_tokens_def ordered_dict_keys_def strip_def lstrip_def rstrip_def
        is_space_def)
  then have ne: "normalize_tokens '' mit '' ?e \<noteq> []" by simp
  have h: "strip '' mit '' \<noteq> []"
    by (simp add: strip_def lstrip_def rstrip_def is_space_def)
  show ?thesis
    using h ne normalize_tokens_ordered_idempotent [of "'' mit ''" ?e] by blast
qed

section \<open>Claims about \<open>choose_archive_target\<close>\<close>

text \<open>
  C1, as stated, fails: the time-stamped path is returned without any check. In an
  archive that holds both \<open>mit\<close> and \<open>mit-20261104010203\<close>, a call at
  2026-11-04 01:02:03 returns the second one, which exists.
\<close>

theorem choose_archive_target_existing_counterexample:
  "fst (choose_archive_target collision_world (Path ''/'' [''lu'', ''sites'', ''archive'']) ''mit'') =
     Path ''/'' [''lu'', ''sites'', ''archive'', ''mit-20261104010203''] \<and>
   path_exists collision_world
     (fst (choose_archive_target collision_world (Path ''/'' [''lu'', ''sites'', ''archive'']) ''mit''))"
  by (simp add: choose_archive_target_def collision_world_def path_exists_def joinpath_def
      path_of_str_def parse_anchor_def now_def example_compact Let_def)

text \<open>
  C1 (amended): for every archive directory and site name, \<open>choose_archive_target\<close>
  returns \<open><archive_dir>/<site>\<close> when that path does not exist at the time of the call
  (so the returned path does not exist then); otherwise it returns
  \<open><archive_dir>/<site>-<timestamp>\<close>, with the time stamp of the clock reading, a path
  different from \<open><archive_dir>/<site>\<close> whose existence is not checked. The call
  changes nothing in the file system.
\<close>

theorem choose_archive_target_result:
  "(\<not> path_exists w (joinpath archive_dir site) \<longrightarrow>
      choose_archive_target w archive_dir site = (joinpath archive_dir site, w) \<and>
      \<not> path_exists w (fst (choose_archive_target w archive_dir site))) \<and>
   (path_exists w (joinpath archive_dir site) \<longrightarrow>
      fst (choose_archive_target w archive_dir site) =
        joinpath archive_dir (site @ ''-'' @ strftime_compact (clock w (ticks w))) \<and>
      fst (choose_archive_target w archive_dir site) \<noteq> joinpath archive_dir site) \<and>
   fs (snd (choose_archive_target w archive_dir site)) = fs w"
proof -
  have d: "joinpath archive_dir (site @ CHR ''-'' # strftime_compact (clock w (ticks w))) \<noteq>
           joinpath archive_dir site"
    by (rule joinpath_suffix_distinct) simp_all
  show ?thesis
    using d by (simp add: choose_archive_target_def now_def Let_def)
qed

theorem choose_archive_target_result_witness:
  "path_exists collision_world (joinpath (Path ''/'' [''lu'', ''sites'', ''archive'']) ''mit'') \<and>
   fst (choose_archive_target collision_world (Path ''/'' [''lu'', ''sites'', ''archive'']) ''mit'') \<noteq>
     joinpath (Path ''/'' [''lu'', ''sites'', ''archive'']) ''mit'' \<and>
   \<not> path_exists collision_world (joinpath (Path ''/'' [''lu'', ''sites'', ''archive'']) ''esp'') \<and>
   \<not> path_exists collision_world
       (fst (choose_archive_target collision_world (Path ''/'' [''lu'', ''sites'', ''archive'']) ''esp''))"
proof -
  let ?d = "Path ''/'' [''lu'', ''sites'', ''archive'']"
  have a: "path_exists collision_world (joinpath ?d ''mit'')"
    by (simp add: collision_world_def path_exists_def joinpath_def path_of_str_def
        parse_anchor_def Let_def)
  have b: "\<not> path_exists collision_world (joinpath ?d ''esp'')"
    by (simp add: collision_world_def path_exists_def joinpath_def path_of_str_def
        parse_anchor_def Let_def)
  show ?thesis
    using a b choose_archive_target_result [of collision_world ?d "''mit''"]
      choose_archive_target_result [of collision_world ?d "''esp''"]
    by blast
qed

section \<open>Claims about \<open>comment_matching_lines\<close> without matches\<close>

text \<open>
  C6: for every call to \<open>comment_matching_lines\<close> with an empty match list, the function
  returns the original path and leaves the whole environment as it was: the target file
  keeps its content, no backup file appears anywhere in the file system, nothing is
  printed and the clock is not read.
\<close>

theorem comment_matching_lines_no_matches:
  "comment_matching_lines w p [] site stamp = (Inr p, w) \<and>
   fs (snd (comment_matching_lines w p [] site stamp)) = fs w"
  by (simp add: comment_matching_lines_def)

section \<open>Claims about \<open>analyze_config_file\<close>\<close>

text \<open>
  C8: for every readable file and every token list, \<open>analyze_config_file\<close> returns an
  analysis whose active matches are exactly the lines of class \<open>ActiveMatch\<close> and whose
  commented matches are exactly the lines of class \<open>CommentedMatch\<close>, each with its line
  number (from 1) and its text without the line terminator, in file order. \<open>classify\<close>
  gives every line exactly one of the three classes: no match, commented match (some token
  is a literal substring and the first character after the leading whitespace is \<open>#\<close>),
  active match (some token is a substring and the line is not commented). So the two lists
  are disjoint, also in their line numbers, and their lengths add up to the number of
  lines that contain a token.
\<close>

theorem analyze_config_file_partition:
  assumes "fs w p = Some (File content)"
  shows "\<exists>a. analyze_config_file w p tokens = Inr a \<and> path a = p \<and>
     active_matches a = map match_of
       (filter (\<lambda>il. classify tokens (rstrip_newline (snd il)) = ActiveMatch)
          (enumerate_from 1 (file_lines content))) \<and>
     commented_matches a = map match_of
       (filter (\<lambda>il. classify tokens (rstrip_newline (snd il)) = CommentedMatch)
          (enumerate_from 1 (file_lines content))) \<and>
     (\<forall>il\<in>set (enumerate_from 1 (file_lines content)).
        (match_of il \<in> set (active_matches a) \<longleftrightarrow>
           classify tokens (rstrip_newline (snd il)) = ActiveMatch) \<and>
        (match_of il \<in> set (commented_matches a) \<longleftrightarrow>
           classify tokens (rstrip_newline (snd il)) = CommentedMatch)) \<and>
     set (active_matches a) \<inter> set (commented_matches a) = {} \<and>
     line_number ` set (active_matches a) \<inter> line_number ` set (commented_matches a) = {} \<and>
     length (active_matches a) + length (commented_matches a) =
       length (filter (\<lambda>l. has_token tokens (rstrip_newline l)) (file_lines content))"
proof -
  define en where "en = enumerate_from 1 (file_lines content)"
  define A :: "nat \<times> string \<Rightarrow> bool"
    where "A = (\<lambda>il. classify tokens (rstrip_newline (snd il)) = ActiveMatch)"
  define C :: "nat \<times> string \<Rightarrow> bool"
    where "C = (\<lambda>il. classify tokens (rstrip_newline (snd il)) = CommentedMatch)"
  define a where "a = \<lparr>path = p, active_matches = map match_of (filter A en),
                        commented_matches = map match_of (filter C en)\<rparr>"
  have r: "analyze_config_file w p tokens = Inr a"
    unfolding a_def A_def C_def en_def using assms by (rule analyze_config_file_closed)
  have pa: "path a = p" by (simp add: a_def)
  have la: "active_matches a = map match_of (filter A en)" by (simp add: a_def)
  have lc: "commented_matches a = map match_of (filter C en)" by (simp add: a_def)
  have mem: "\<forall>il\<in>set en. (match_of il \<in> set (active_matches a) \<longleftrightarrow> A il) \<and>
                          (match_of il \<in> set (commented_matches a) \<longleftrightarrow> C il)"
  proof (intro ballI conjI)
    fix il
    assume i: "il \<in> set en"
    show "match_of il \<in> set (active_matches a) \<longleftrightarrow> A il"
      unfolding la using i unfolding en_def by (rule match_of_mem_filter)
    show "match_of il \<in> set (commented_matches a) \<longleftrightarrow> C il"
      unfolding lc using i unfolding en_def by (rule match_of_mem_filter)
  qed
  have numbers: "line_number ` set (active_matches a) \<inter> line_number ` set (commented_matches a) = {}"
  proof (rule ccontr)
    assume "line_number ` set (active_matches a) \<inter> line_number ` set (commented_matches a) \<noteq> {}"
    then obtain x y where x: "x \<in> set en" "A x" and y: "y \<in> set en" "C y"
      and e: "line_number (match_of x) = line_number (match_of y)"
      unfolding la lc by auto
    from e have "fst x = fst y" by (simp add: match_of_number)
    then have "x = y" using x(1) y(1) unfolding en_def by (rule enumerate_from_same_number [rotated 2])
    then show False using x(2) y(2) unfolding A_def C_def by simp
  qed
  then have disj: "set (active_matches a) \<inter> set (commented_matches a) = {}" by auto
  have "length (filter A en) + length (filter C en) =
        length (filter (\<lambda>il. classify tokens (rstrip_newline (snd il)) \<noteq> NoMatch) en)"
    unfolding A_def C_def by (rule class_counts)
  also have "\<dots> = length (filter (\<lambda>il. has_token tokens (rstrip_newline (snd il))) en)"
    by (simp only: classify_NoMatch)
  also have "\<dots> = length (filter (\<lambda>l. has_token tokens (rstrip_newline l)) (file_lines content))"
    unfolding en_def by (rule length_filter_enumerate_from)
  finally have count: "length (active_matches a) + length (commented_matches a) =
       length (filter (\<lambda>l. has_token tokens (rstrip_newline l)) (file_lines content))"
    by (simp add: la lc)
  from r pa la lc mem disj numbers count show ?thesis
    unfolding A_def C_def en_def by blast
qed


theorem analyze_config_file_partition_witness:
  "fs config_world (Path ''/'' [''etc'', ''crontab'']) =
     Some (File (''0 * * * * mit job'' @ [LF] @ ''  # mit old'' @ [LF] @ ''other'' @ [LF])) \<and>
   (\<exists>a. analyze_config_file config_world (Path ''/'' [''etc'', ''crontab'']) [''mit''] = Inr a \<and>
        length (active_matches a) + length (commented_matches a) =
          length (filter (\<lambda>l. has_token [''mit''] (rstrip_newline l))
            (file_lines (''0 * * * * mit job'' @ [LF] @ ''  # mit old'' @ [LF] @ ''other'' @ [LF]))))"
proof -
  have h: "fs config_world (Path ''/'' [''etc'', ''crontab'']) =
     Some (File (''0 * * * * mit job'' @ [LF] @ ''  # mit old'' @ [LF] @ ''other'' @ [LF]))"
    by (simp add: config_world_def)
  show ?thesis
    using h analyze_config_file_partition [OF h, of "[''mit'']"] by blast
qed

section \<open>Claims about \<open>comment_matching_lines\<close> with matches\<close>

text \<open>
  C3, as stated, fails in its last part: the other lines are not written back with their
  original line endings. The file is read and written in text mode, so a \<open>\r\n\<close> (or a
  lone \<open>\r\<close>) at the end of a line is read as \<open>\n\<close> and written as \<open>\n\<close>. Here line 1
  is rewritten and line 2, \<open>keep\r\n\<close>, which is not in the match set, comes back as
  \<open>keep\n\<close>.
\<close>

theorem comment_matching_lines_line_endings_counterexample:
  "fs crlf_world (Path ''/'' [''etc'', ''crontab'']) =
     Some (File (''mit job'' @ [CR, LF] @ ''keep'' @ [CR, LF])) \<and>
   fs (snd (comment_matching_lines crlf_world (Path ''/'' [''etc'', ''crontab''])
              [\<lparr>line_number = 1, line_text = ''mit job''\<rparr>] ''mit'' ''2026-11-04''))
      (Path ''/'' [''etc'', ''crontab'']) =
     Some (File (''# deactivated mit 2026-11-04 mit job'' @ [LF] @ ''keep'' @ [LF]))"
proof -
  define p where "p = Path ''/'' [''etc'', ''crontab'']"
  define c where "c = ''mit job'' @ [CR, LF] @ ''keep'' @ [CR, LF]"
  define ms where "ms = [\<lparr>line_number = 1, line_text = ''mit job''\<rparr>]"
  define res where "res = ''# deactivated mit 2026-11-04 mit job'' @ [LF] @ ''keep'' @ [LF]"
  have f: "fs crlf_world p = Some (File c)" by (simp add: crlf_world_def p_def c_def)
  have d: "\<not> is_dir crlf_world (backup_path_of p (clock crlf_world (ticks crlf_world)))"
    by (simp add: is_dir_def crlf_world_def p_def)
  have m: "ms \<noteq> []" by (simp add: ms_def)
  have u: "concat (updated_lines_of ms ''mit'' ''2026-11-04'' c) = res"
    by (simp add: updated_lines_of_def file_lines_def enumerate_from_def rewritten_def
        comment_prefixed_def is_space_def deactivation_marker_def CR_def LF_def ms_def c_def
        res_def)
  have "fs (snd (comment_matching_lines crlf_world p ms ''mit'' ''2026-11-04'')) p = Some (File res)"
    by (simp add: comment_matching_lines_success [OF f m d] u)
  with f have "fs crlf_world p = Some (File c) \<and>
    fs (snd (comment_matching_lines crlf_world p ms ''mit'' ''2026-11-04'')) p = Some (File res)"
    by simp
  then show ?thesis unfolding p_def c_def ms_def res_def .
qed

text \<open>
  C3 (amended): for every call to \<open>comment_matching_lines\<close> with a non-empty match list,
  on a file that can be read and with no directory in the way of the backup, the call
  returns the backup path and the file then holds, one after the other, the lines as they
  were read in text mode (\<open>\r\n\<close> and \<open>\r\<close> line endings read as \<open>\n\<close>), where each line
  whose number is in the match set and which is not comment-prefixed is replaced by the
  marker \<open># deactivated <site> <stamp> \<close> followed by the line, and every other line is
  written as it was read. The lines read make up the content with its line endings
  translated; for a file without \<open>\r\<close> they are the content itself, so that there every
  other line keeps its bytes and its line ending.
\<close>

theorem comment_matching_lines_rewrites:
  assumes "fs w p = Some (File content)" and "matches \<noteq> []"
    and "\<not> is_dir w (backup_path_of p (clock w (ticks w)))"
  shows "\<exists>backup w'. comment_matching_lines w p matches site stamp = (Inr backup, w') \<and>
     (\<exists>updated. fs w' p = Some (File (concat updated)) \<and>
        length updated = length (file_lines content) \<and>
        (\<forall>i<length (file_lines content).
           updated ! i =
             (if Suc i \<in> line_number ` set matches \<and> \<not> comment_prefixed (file_lines content ! i)
              then deactivation_marker site stamp @ file_lines content ! i
              else file_lines content ! i))) \<and>
     concat (file_lines content) = universal_newlines content \<and>
     (CR \<notin> set content \<longrightarrow> concat (file_lines content) = content)"
proof -
  let ?u = "updated_lines_of matches site stamp content"
  have r: "comment_matching_lines w p matches site stamp =
     (Inr (backup_path_of p (clock w (ticks w))),
      w\<lparr>ticks := Suc (ticks w),
        fs := ((fs w)(backup_path_of p (clock w (ticks w)) \<mapsto> File content))
                (p \<mapsto> File (concat ?u))\<rparr>)"
    using assms by (rule comment_matching_lines_success)
  have l: "length ?u = length (file_lines content)" by (rule length_updated_lines_of)
  have n: "\<forall>i<length (file_lines content).
           ?u ! i =
             (if Suc i \<in> line_number ` set matches \<and> \<not> comment_prefixed (file_lines content ! i)
              then deactivation_marker site stamp @ file_lines content ! i
              else file_lines content ! i)"
    using nth_updated_lines_of by blast
  have c: "concat (file_lines content) = universal_newlines content" by (rule concat_file_lines)
  have v: "CR \<notin> set content \<longrightarrow> concat (file_lines content) = content"
    by (simp add: concat_file_lines universal_newlines_no_CR)
  have "\<exists>updated. fs (w\<lparr>ticks := Suc (ticks w),
        fs := ((fs w)(backup_path_of p (clock w (ticks w)) \<mapsto> File content))
                (p \<mapsto> File (concat ?u))\<rparr>) p = Some (File (concat updated)) \<and>
        length updated = length (file_lines content) \<and>
        (\<forall>i<length (file_lines content).
           updated ! i =
             (if Suc i \<in> line_number ` set matches \<and> \<not> comment_prefixed (file_lines content ! i)
              then deactivation_marker site stamp @ file_lines content ! i
              else file_lines content ! i))"
    using l n by (intro exI [of _ ?u]) simp
  with r c v show ?thesis by blast
qed

theorem comment_matching_lines_rewrites_witness:
  "fs config_world (Path ''/'' [''etc'', ''crontab'']) =
     Some (File (''0 * * * * mit job'' @ [LF] @ ''  # mit old'' @ [LF] @ ''other'' @ [LF])) \<and>
   [\<lparr>line_number = 1, line_text = ''0 * * * * mit job''\<rparr>] \<noteq> [] \<and>
   \<not> is_dir config_world
       (backup_path_of (Path ''/'' [''etc'', ''crontab'']) (clock config_world (ticks config_world))) \<and>
   (\<exists>backup w'.
      comment_matching_lines config_world (Path ''/'' [''etc'', ''crontab''])
        [\<lparr>line_number = 1, line_text = ''0 * * * * mit job''\<rparr>] ''mit'' ''2026-11-04'' =
        (Inr backup, w') \<and>
      (\<exists>updated. fs w' (Path ''/'' [''etc'', ''crontab'']) = Some (File (concat updated)) \<and>
         length updated =
           length (file_lines (''0 * * * * mit job'' @ [LF] @ ''  # mit old'' @ [LF] @ ''other'' @ [LF]))))"
proof -
  define p where "p = Path ''/'' [''etc'', ''crontab'']"
  define c where "c = ''0 * * * * mit job'' @ [LF] @ ''  # mit old'' @ [LF] @ ''other'' @ [LF]"
  define ms where "ms = [\<lparr>line_number = 1, line_text = ''0 * * * * mit job''\<rparr>]"
  have f: "fs config_world p = Some (File c)" by (simp add: config_world_def p_def c_def)
  have m: "ms \<noteq> []" by (simp add: ms_def)
  have d: "\<not> is_dir config_world (backup_path_of p (clock config_world (ticks config_world)))"
    by (simp add: is_dir_def config_world_def p_def)
  have "fs config_world p = Some (File c) \<and> ms \<noteq> [] \<and>
        \<not> is_dir config_world (backup_path_of p (clock config_world (ticks config_world))) \<and>
        (\<exists>backup w'. comment_matching_lines config_world p ms ''mit'' ''2026-11-04'' = (Inr backup, w') \<and>
           (\<exists>updated. fs w' p = Some (File (concat updated)) \<and>
              length updated = length (file_lines c)))"
    using f m d comment_matching_lines_rewrites [OF f m d, of "''mit''" "''2026-11-04''"] by blast
  then show ?thesis unfolding p_def c_def ms_def .
qed


section \<open>Claims about repeated deactivation\<close>

text \<open>
  C9, as stated, fails for a site identifier that contains a line break: the marker then
  spreads over two lines, and the second of them, which carries the original line, is
  not comment-prefixed. With the site \<open>x\ny\<close> the active line 1 of the example crontab
  is rewritten, and the next scan finds it again as the active line 2.
\<close>

theorem deactivation_newline_site_counterexample:
  "analyze_config_file config_world (Path ''/'' [''etc'', ''crontab'']) [''mit''] =
     Inr \<lparr>path = Path ''/'' [''etc'', ''crontab''],
          active_matches = [\<lparr>line_number = 1, line_text = ''0 * * * * mit job''\<rparr>],
          commented_matches = [\<lparr>line_number = 2, line_text = ''  # mit old''\<rparr>]\<rparr> \<and>
   analyze_config_file
     (snd (comment_matching_lines config_world (Path ''/'' [''etc'', ''crontab''])
             [\<lparr>line_number = 1, line_text = ''0 * * * * mit job''\<rparr>]
             (''x'' @ [LF] @ ''y'') ''2026-11-04''))
     (Path ''/'' [''etc'', ''crontab'']) [''mit''] =
     Inr \<lparr>path = Path ''/'' [''etc'', ''crontab''],
          active_matches = [\<lparr>line_number = 2, line_text = ''y 2026-11-04 0 * * * * mit job''\<rparr>],
          commented_matches = [\<lparr>line_number = 3, line_text = ''  # mit old''\<rparr>]\<rparr>"
proof -
  define p where "p = Path ''/'' [''etc'', ''crontab'']"
  define c where "c = ''0 * * * * mit job'' @ [LF] @ ''  # mit old'' @ [LF] @ ''other'' @ [LF]"
  define ms where "ms = [\<lparr>line_number = 1, line_text = ''0 * * * * mit job''\<rparr>]"
  define site where "site = ''x'' @ [LF] @ ''y''"
  define res where "res = ''# deactivated x'' @ [LF] @ ''y 2026-11-04 0 * * * * mit job'' @ [LF] @
                          ''  # mit old'' @ [LF] @ ''other'' @ [LF]"
  have f: "fs config_world p = Some (File c)" by (simp add: config_world_def p_def c_def)
  have d: "\<not> is_dir config_world (backup_path_of p (clock config_world (ticks config_world)))"
    by (simp add: is_dir_def config_world_def p_def)
  have m: "ms \<noteq> []" by (simp add: ms_def)
  have u: "concat (updated_lines_of ms site ''2026-11-04'' c) = res"
    by (simp add: updated_lines_of_def file_lines_def enumerate_from_def rewritten_def
        comment_prefixed_def is_space_def deactivation_marker_def CR_def LF_def ms_def c_def
        res_def site_def)
  have w: "fs (snd (comment_matching_lines config_world p ms site ''2026-11-04'')) p = Some (File res)"
    by (simp add: comment_matching_lines_success [OF f m d] u)
  have "analyze_config_file (snd (comment_matching_lines config_world p ms site ''2026-11-04'')) p [''mit''] =
     Inr \<lparr>path = p,
          active_matches = [\<lparr>line_number = 2, line_text = ''y 2026-11-04 0 * * * * mit job''\<rparr>],
          commented_matches = [\<lparr>line_number = 3, line_text = ''  # mit old''\<rparr>]\<rparr>"
    by (simp add: analyze_config_file_def read_lines_def w res_def LF_def CR_def
      rstrip_newline_def lstrip_def is_space_def startswith_hash_def Let_def)
  then show ?thesis
    using config_world_analysis unfolding p_def ms_def site_def by simp
qed

text \<open>
  C9 (amended): for a site identifier and a stamp without line breaks, for every readable
  file and every match list, after \<open>comment_matching_lines\<close> has been applied once,
  scanning the resulting file again with any token list finds no active match at a line
  number of the match list; and when the match list was the list of active matches of
  the first scan with these tokens, the second scan has no active match at all and the
  second application of \<open>comment_matching_lines\<close> changes nothing.
\<close>

theorem deactivation_idempotent:
  assumes rd: "fs w p = Some (File content)"
    and bk: "\<not> is_dir w (backup_path_of p (clock w (ticks w)))"
    and site: "single_line site" and stamp: "single_line stamp"
  shows "\<exists>result w'. comment_matching_lines w p matches site stamp = (Inr result, w') \<and>
     (\<exists>a'. analyze_config_file w' p tokens = Inr a' \<and>
        (\<forall>m\<in>set (active_matches a'). line_number m \<notin> line_number ` set matches) \<and>
        ((\<exists>a. analyze_config_file w p tokens = Inr a \<and> matches = active_matches a) \<longrightarrow>
           active_matches a' = [] \<and>
           comment_matching_lines w' p (active_matches a') site stamp = (Inr p, w')))"
proof (cases "matches = []")
  case True
  obtain a where a: "analyze_config_file w p tokens = Inr a"
    using analyze_config_file_closed [OF rd] by blast
  have r: "comment_matching_lines w p matches site stamp = (Inr p, w)"
    using True by (simp add: comment_matching_lines_def)
  have one: "\<forall>m\<in>set (active_matches a). line_number m \<notin> line_number ` set matches"
    using True by simp
  have two: "(\<exists>b. analyze_config_file w p tokens = Inr b \<and> matches = active_matches b) \<longrightarrow>
           active_matches a = [] \<and>
           comment_matching_lines w p (active_matches a) site stamp = (Inr p, w)"
    using a True by (auto simp: comment_matching_lines_def)
  from r a one two show ?thesis by blast
next
  case False
  define U where "U = updated_lines_of matches site stamp content"
  define A :: "nat \<times> string \<Rightarrow> bool"
    where "A = (\<lambda>il. classify tokens (rstrip_newline (snd il)) = ActiveMatch)"
  define w' where "w' = w\<lparr>ticks := Suc (ticks w),
        fs := ((fs w)(backup_path_of p (clock w (ticks w)) \<mapsto> File content))
                (p \<mapsto> File (concat U))\<rparr>"
  have r: "comment_matching_lines w p matches site stamp =
             (Inr (backup_path_of p (clock w (ticks w))), w')"
    unfolding w'_def U_def using rd False bk by (rule comment_matching_lines_success)
  have f': "fs w' p = Some (File (concat U))" by (simp add: w'_def)
  have fl: "file_lines (concat U) = U"
    unfolding U_def using site stamp by (rule file_lines_updated)
  obtain a' where a': "analyze_config_file w' p tokens = Inr a'"
    and act': "active_matches a' = map match_of (filter A (enumerate_from 1 U))"
    using analyze_config_file_closed [OF f', of tokens] fl by (simp add: A_def)
  have one: "\<forall>m\<in>set (active_matches a'). line_number m \<notin> line_number ` set matches"
  proof
    fix m
    assume "m \<in> set (active_matches a')"
    then obtain il where il: "il \<in> set (enumerate_from 1 U)" "A il" "m = match_of il"
      by (auto simp: act')
    have "fst il \<notin> line_number ` set matches"
      using il(1,2) unfolding U_def A_def by (rule rescan_active_not_target)
    then show "line_number m \<notin> line_number ` set matches"
      using il(3) by (simp add: match_of_number)
  qed
  have two: "(\<exists>a. analyze_config_file w p tokens = Inr a \<and> matches = active_matches a) \<longrightarrow>
           active_matches a' = [] \<and>
           comment_matching_lines w' p (active_matches a') site stamp = (Inr p, w')"
  proof
    assume "\<exists>a. analyze_config_file w p tokens = Inr a \<and> matches = active_matches a"
    then obtain a where a: "analyze_config_file w p tokens = Inr a" "matches = active_matches a"
      by blast
    have ma: "matches = map match_of (filter A (enumerate_from 1 (file_lines content)))"
      using a analyze_config_file_closed [OF rd, of tokens] by (auto simp: A_def)
    have "filter A (enumerate_from 1 U) = []"
    proof (rule ccontr)
      assume "filter A (enumerate_from 1 U) \<noteq> []"
      then obtain il where il: "il \<in> set (enumerate_from 1 U)" "A il"
        by (metis filter_False)
      have "il \<in> set (enumerate_from 1 (file_lines content))"
        using il unfolding U_def A_def by (rule rescan_active_was_active)
      then have "match_of il \<in> set matches" using il(2) unfolding ma by simp
      then have "fst il \<in> line_number ` set matches"
        using match_of_number [of il] by force
      moreover have "fst il \<notin> line_number ` set matches"
        using il unfolding U_def A_def by (rule rescan_active_not_target)
      ultimately show False by simp
    qed
    then have e: "active_matches a' = []" by (simp add: act')
    then show "active_matches a' = [] \<and>
           comment_matching_lines w' p (active_matches a') site stamp = (Inr p, w')"
      by (simp add: comment_matching_lines_def)
  qed
  from r a' one two show ?thesis by blast
qed

theorem deactivation_idempotent_witness:
  "fs config_world (Path ''/'' [''etc'', ''crontab'']) =
     Some (File (''0 * * * * mit job'' @ [LF] @ ''  # mit old'' @ [LF] @ ''other'' @ [LF])) \<and>
   \<not> is_dir config_world
       (backup_path_of (Path ''/'' [''etc'', ''crontab'']) (clock config_world (ticks config_world))) \<and>
   single_line ''mit'' \<and> single_line ''2026-11-04'' \<and>
   (\<exists>result w' a'.
      comment_matching_lines config_world (Path ''/'' [''etc'', ''crontab''])
        [\<lparr>line_number = 1, line_text = ''0 * * * * mit job''\<rparr>] ''mit'' ''2026-11-04'' =
        (Inr result, w') \<and>
      analyze_config_file w' (Path ''/'' [''etc'', ''crontab'']) [''mit''] = Inr a' \<and>
      active_matches a' = [] \<and>
      comment_matching_lines w' (Path ''/'' [''etc'', ''crontab'']) (active_matches a')
        ''mit'' ''2026-11-04'' = (Inr (Path ''/'' [''etc'', ''crontab'']), w'))"
proof -
  define p where "p = Path ''/'' [''etc'', ''crontab'']"
  define c where "c = ''0 * * * * mit job'' @ [LF] @ ''  # mit old'' @ [LF] @ ''other'' @ [LF]"
  define ms where "ms = [\<lparr>line_number = 1, line_text = ''0 * * * * mit job''\<rparr>]"
  have f: "fs config_world p = Some (File c)" by (simp add: config_world_def p_def c_def)
  have d: "\<not> is_dir config_world (backup_path_of p (clock config_world (ticks config_world)))"
    by (simp add: is_dir_def config_world_def p_def)
  have s1: "single_line ''mit''" by (simp add: single_line_def LF_def CR_def)
  have s2: "single_line ''2026-11-04''" by (simp add: single_line_def LF_def CR_def)
  have first: "\<exists>a. analyze_config_file config_world p [''mit''] = Inr a \<and> ms = active_matches a"
    using config_world_analysis by (simp add: p_def ms_def)
  obtain result w' a'
    where r: "comment_matching_lines config_world p ms ''mit'' ''2026-11-04'' = (Inr result, w')"
      and a: "analyze_config_file w' p [''mit''] = Inr a'"
      and i: "(\<exists>a. analyze_config_file config_world p [''mit''] = Inr a \<and> ms = active_matches a) \<longrightarrow>
                active_matches a' = [] \<and>
                comment_matching_lines w' p (active_matches a') ''mit'' ''2026-11-04'' = (Inr p, w')"
    using deactivation_idempotent [OF f d s1 s2, of ms "[''mit'']"] by blast
  have e: "active_matches a' = []"
    and n: "comment_matching_lines w' p (active_matches a') ''mit'' ''2026-11-04'' = (Inr p, w')"
    using i first by blast+
  have "fs config_world p = Some (File c) \<and>
        \<not> is_dir config_world (backup_path_of p (clock config_world (ticks config_world))) \<and>
        single_line ''mit'' \<and> single_line ''2026-11-04'' \<and>
        (\<exists>result w' a'.
           comment_matching_lines config_world p ms ''mit'' ''2026-11-04'' = (Inr result, w') \<and>
           analyze_config_file w' p [''mit''] = Inr a' \<and> active_matches a' = [] \<and>
           comment_matching_lines w' p (active_matches a') ''mit'' ''2026-11-04'' = (Inr p, w'))"
    using f d s1 s2 r a e n by blast
  then show ?thesis unfolding p_def c_def ms_def .
qed

section \<open>Claims about \<open>main\<close>\<close>





end
